theory Spec2Isabelle
  imports Complex_Main "HOL-Library.Finite_Map"
begin

section \<open>Values\<close>

text \<open>
  The formulas compute with JavaScript numbers: a finite number, one of the two
  infinities, or NaN. Finite numbers are modelled as reals: rounding, overflow and
  the sign of zero of IEEE doubles are outside this model. \<open>Null\<close> is what a JSON
  round trip of the table makes of a number that is not finite, and \<open>Undefined\<close> is
  an argument that a function was not given.

  The library \<open>FNS\<close> is an object literal, so \<open>FNS[name]\<close> also finds the functions
  that every object inherits from \<open>Object.prototype\<close>, and these bring in values that
  are not numbers: the string \<open>[object Null]\<close>, the boolean \<open>false\<close>, the empty
  object \<open>{}\<close> and the wrapper object \<open>Object(v)\<close> of a primitive number, boolean or
  string \<open>v\<close> (\<open>Boxed v\<close>).

  A string is kept as the way it was put together: it is \<open>[object Null]\<close> or
  \<open>[object Object]\<close>, or one of these with texts of values that are not strings, or
  further such strings, before or after it. The text of a number is not spelled out.
  Every string of the engine has one of the two in it, so none reads as a number.
\<close>

datatype shown =
    Number_text real
  | Infinity_text
  | Minus_Infinity_text
  | NaN_text
  | Null_text
  | Undefined_text
  | Boolean_text bool

datatype jsstring =
    Object_Null
  | Object_Object
  | Text_then shown jsstring
  | Then_text jsstring shown
  | Concat jsstring jsstring

datatype jsval =
    Fin real | PInf | NInf | NaN | Null | Undefined
  | Boolean bool | Str jsstring | Object | Boxed jsval

text \<open>
  \<open>ToNumber\<close>. An object is first made a primitive: a wrapper object is the value it
  wraps, and \<open>{}\<close> is the string \<open>[object Object]\<close>.
\<close>

fun toNumber :: "jsval \<Rightarrow> jsval" where
  "toNumber (Fin x) = Fin x"
| "toNumber PInf = PInf"
| "toNumber NInf = NInf"
| "toNumber NaN = NaN"
| "toNumber Null = Fin 0"
| "toNumber Undefined = NaN"
| "toNumber (Boolean b) = Fin (if b then 1 else 0)"
| "toNumber (Str s) = NaN"
| "toNumber Object = NaN"
| "toNumber (Boxed v) = toNumber v"

text \<open>
  \<open>ToString(ToPrimitive(v))\<close>: the string itself on the left when the primitive is
  a string, the text of the primitive on the right when it is not.
\<close>

fun toString :: "jsval \<Rightarrow> jsstring + shown" where
  "toString (Fin x) = Inr (Number_text x)"
| "toString PInf = Inr Infinity_text"
| "toString NInf = Inr Minus_Infinity_text"
| "toString NaN = Inr NaN_text"
| "toString Null = Inr Null_text"
| "toString Undefined = Inr Undefined_text"
| "toString (Boolean b) = Inr (Boolean_text b)"
| "toString (Str s) = Inl s"
| "toString Object = Inl Object_Object"
| "toString (Boxed v) = toString v"

fun num_neg :: "jsval \<Rightarrow> jsval" where
  "num_neg (Fin x) = Fin (- x)"
| "num_neg PInf = NInf"
| "num_neg NInf = PInf"
| "num_neg v = NaN"

fun num_add :: "jsval \<Rightarrow> jsval \<Rightarrow> jsval" where
  "num_add (Fin x) (Fin y) = Fin (x + y)"
| "num_add (Fin x) PInf = PInf"
| "num_add (Fin x) NInf = NInf"
| "num_add PInf (Fin y) = PInf"
| "num_add PInf PInf = PInf"
| "num_add NInf (Fin y) = NInf"
| "num_add NInf NInf = NInf"
| "num_add a b = NaN"

fun num_mul :: "jsval \<Rightarrow> jsval \<Rightarrow> jsval" where
  "num_mul (Fin x) (Fin y) = Fin (x * y)"
| "num_mul (Fin x) PInf = (if x = 0 then NaN else if 0 < x then PInf else NInf)"
| "num_mul (Fin x) NInf = (if x = 0 then NaN else if 0 < x then NInf else PInf)"
| "num_mul PInf (Fin y) = (if y = 0 then NaN else if 0 < y then PInf else NInf)"
| "num_mul NInf (Fin y) = (if y = 0 then NaN else if 0 < y then NInf else PInf)"
| "num_mul PInf PInf = PInf"
| "num_mul PInf NInf = NInf"
| "num_mul NInf PInf = NInf"
| "num_mul NInf NInf = PInf"
| "num_mul a b = NaN"

fun num_div :: "jsval \<Rightarrow> jsval \<Rightarrow> jsval" where
  "num_div (Fin x) (Fin y) =
     (if y = 0 then (if x = 0 then NaN else if 0 < x then PInf else NInf)
      else Fin (x / y))"
| "num_div (Fin x) PInf = Fin 0"
| "num_div (Fin x) NInf = Fin 0"
| "num_div PInf (Fin y) = (if 0 \<le> y then PInf else NInf)"
| "num_div NInf (Fin y) = (if 0 \<le> y then NInf else PInf)"
| "num_div a b = NaN"

fun num_min :: "jsval \<Rightarrow> jsval \<Rightarrow> jsval" where
  "num_min (Fin x) (Fin y) = Fin (min x y)"
| "num_min (Fin x) PInf = Fin x"
| "num_min (Fin x) NInf = NInf"
| "num_min PInf (Fin y) = Fin y"
| "num_min PInf PInf = PInf"
| "num_min PInf NInf = NInf"
| "num_min NInf (Fin y) = NInf"
| "num_min NInf PInf = NInf"
| "num_min NInf NInf = NInf"
| "num_min a b = NaN"

fun num_max :: "jsval \<Rightarrow> jsval \<Rightarrow> jsval" where
  "num_max (Fin x) (Fin y) = Fin (max x y)"
| "num_max (Fin x) PInf = PInf"
| "num_max (Fin x) NInf = Fin x"
| "num_max PInf (Fin y) = PInf"
| "num_max PInf PInf = PInf"
| "num_max PInf NInf = PInf"
| "num_max NInf (Fin y) = Fin y"
| "num_max NInf PInf = PInf"
| "num_max NInf NInf = NInf"
| "num_max a b = NaN"

section \<open>The function library\<close>

text \<open>\<open>fn.apply(null, kidValues)\<close>: a parameter beyond the given values is undefined.\<close>

definition arg :: "jsval list \<Rightarrow> nat \<Rightarrow> jsval" where
  "arg vs i = (if i < length vs then vs ! i else Undefined)"

text \<open>
  \<open>a + b\<close>: both operands are made primitives; when one of them is a string the
  result is the concatenation of the two as strings, otherwise the sum of the two as
  numbers.
\<close>

definition js_add :: "jsval \<Rightarrow> jsval \<Rightarrow> jsval" where
  "js_add a b =
     (case (toString a, toString b) of
        (Inl s, Inl t) \<Rightarrow> Str (Concat s t)
      | (Inl s, Inr y) \<Rightarrow> Str (Then_text s y)
      | (Inr x, Inl t) \<Rightarrow> Str (Text_then x t)
      | (Inr x, Inr y) \<Rightarrow> num_add (toNumber a) (toNumber b))"

text \<open>
  The object literal \<open>FNS\<close>: its own properties, the six functions of the source.
  \<open>-\<close>, \<open>*\<close>, \<open>/\<close>, \<open>Math.min\<close> and \<open>Math.max\<close> make numbers of their operands.
\<close>

definition FNS :: "string \<Rightarrow> (jsval list \<Rightarrow> jsval) option" where
  "FNS name =
     (if name = ''+'' then
        Some (\<lambda>vs. js_add (arg vs 0) (arg vs 1))
      else if name = ''-'' then
        Some (\<lambda>vs. if arg vs 1 = Undefined then num_neg (toNumber (arg vs 0))
                   else num_add (toNumber (arg vs 0)) (num_neg (toNumber (arg vs 1))))
      else if name = ''*'' then
        Some (\<lambda>vs. num_mul (toNumber (arg vs 0)) (toNumber (arg vs 1)))
      else if name = ''/'' then
        Some (\<lambda>vs. num_div (toNumber (arg vs 0)) (toNumber (arg vs 1)))
      else if name = ''min'' then
        Some (\<lambda>vs. num_min (toNumber (arg vs 0)) (toNumber (arg vs 1)))
      else if name = ''max'' then
        Some (\<lambda>vs. num_max (toNumber (arg vs 0)) (toNumber (arg vs 1)))
      else None)"

text \<open>What the engine throws inside \<open>eval\<close>'s \<open>try\<close> block.\<close>

datatype thrown =
    Circular_ref_direct
  | Circular_ref_path
  | Unsupported_function string
  | Invalid_cell_reference string
  | Type_error

text \<open>
  A property that is not one of \<open>FNS\<close>'s own is looked up in \<open>Object.prototype\<close>,
  whose properties (those of ECMAScript with its Annex B, as Node.js has them) are
  eleven functions and the accessor \<open>__proto__\<close>, which reads as the prototype
  object and is not a function. The engine calls what it finds with \<open>this\<close> being
  \<open>null\<close>:
  \<^item> \<open>toString\<close> returns the string \<open>[object Null]\<close>;
  \<^item> \<open>constructor\<close> is \<open>Object\<close>: it returns a new empty object when its argument
    is undefined or null, the argument when that is an object, and the wrapper
    object of a primitive argument otherwise;
  \<^item> \<open>isPrototypeOf\<close> returns \<open>false\<close> for an argument that is not an object, and
    otherwise throws a \<open>TypeError\<close> as it makes an object of \<open>this\<close>;
  \<^item> the other eight all make an object of \<open>this\<close> and throw a \<open>TypeError\<close>.
\<close>

datatype property = Function "jsval list \<Rightarrow> thrown + jsval" | Not_function

fun js_Object :: "jsval \<Rightarrow> jsval" where
  "js_Object Undefined = Object"
| "js_Object Null = Object"
| "js_Object Object = Object"
| "js_Object (Boxed v) = Boxed v"
| "js_Object v = Boxed v"

fun is_object :: "jsval \<Rightarrow> bool" where
  "is_object Object = True"
| "is_object (Boxed v) = True"
| "is_object v = False"

definition Object_prototype :: "string \<Rightarrow> property option" where
  "Object_prototype name =
     (if name = ''toString'' then
        Some (Function (\<lambda>vs. Inr (Str Object_Null)))
      else if name = ''constructor'' then
        Some (Function (\<lambda>vs. Inr (js_Object (arg vs 0))))
      else if name = ''isPrototypeOf'' then
        Some (Function (\<lambda>vs. if is_object (arg vs 0) then Inl Type_error
                              else Inr (Boolean False)))
      else if name \<in> set [''toLocaleString'', ''valueOf'', ''hasOwnProperty'',
                           ''propertyIsEnumerable'', ''__defineGetter__'',
                           ''__defineSetter__'', ''__lookupGetter__'', ''__lookupSetter__'']
      then Some (Function (\<lambda>vs. Inl Type_error))
      else if name = ''__proto__'' then Some Not_function
      else None)"

text \<open>\<open>FNS[name]\<close>; \<open>None\<close> is \<open>undefined\<close>. The functions of \<open>FNS\<close> do not throw.\<close>

definition FNS_property :: "string \<Rightarrow> property option" where
  "FNS_property name =
     (case FNS name of
        Some fn \<Rightarrow> Some (Function (\<lambda>vs. Inr (fn vs)))
      | None \<Rightarrow> Object_prototype name)"

text \<open>\<open>typeof fn === 'function'\<close>.\<close>

fun is_function :: "property option \<Rightarrow> bool" where
  "is_function (Some (Function fn)) = True"
| "is_function p = False"

section \<open>Syntax trees and the external parser\<close>

text \<open>
  The parser and the cell references (\<open>expr-parser.js\<close>) are not part of the sources;
  the engine only consumes them. A tree is a number, a reference holding a cell
  reference of the parser's type \<open>'r\<close>, or the application of a named function.
\<close>

datatype 'r ast = Num jsval | Ref 'r | App string "'r ast list"

text \<open>
  The four external functions the engine calls, taken as parameters:
  \<open>parse expr cellId\<close> is \<open>parse(expr, cellId)\<close>, \<open>cellref_parse t\<close> is
  \<open>CellRef.parse(t)\<close> (both \<open>None\<close> when the result is not ok),
  \<open>toText_of base r\<close> is \<open>base.toText(r)\<close> and \<open>toText r\<close> is \<open>r.toText()\<close>.
\<close>

record 'r ext =
  parse :: "string \<Rightarrow> string \<Rightarrow> 'r ast option"
  cellref_parse :: "string \<Rightarrow> 'r option"
  toText_of :: "'r \<Rightarrow> 'r \<Rightarrow> string"
  toText :: "'r \<Rightarrow> string"

text \<open>
  \<open>CellRef.parse(baseCellRef.toText(node.value))\<close> followed by \<open>.toText()\<close>, the
  expression by which both \<open>extractReferencedCellIds\<close> and \<open>evalAst\<close> turn a
  reference node into a cell identifier; \<open>None\<close> when the parse is not ok.
\<close>

definition resolve :: "'r ext \<Rightarrow> 'r \<Rightarrow> 'r \<Rightarrow> string option" where
  "resolve X baseCellRef r =
     map_option (toText X) (cellref_parse X (toText_of X baseCellRef r))"

section \<open>Cell records and the cell table\<close>

text \<open>
  The class \<open>CellInfo\<close>; its fields \<open>id\<close> and \<open>value\<close> are \<open>cid\<close> and \<open>val\<close>
  here. \<open>dependents\<close> is a JavaScript \<open>Set\<close>, which keeps its elements in insertion
  order, or the plain object \<open>{}\<close> that \<open>JSON.parse(JSON.stringify(_))\<close> makes of
  any \<open>Set\<close>. The table \<open>cells\<close> is an object with one property for each cell
  identifier that has a record (an identifier is never the name of a property that
  every object inherits).
\<close>

datatype deps = SetOf "string list" | PlainObj

record 'r CellInfo =
  cid :: string
  expr :: string
  ast :: "'r ast option"
  val :: jsval
  dependents :: deps

type_synonym 'r cells = "(string, 'r CellInfo) fmap"

type_synonym updates = "(string \<times> jsval) list"

definition new_CellInfo :: "string \<Rightarrow> string \<Rightarrow> 'r CellInfo" where
  "new_CellInfo i e = \<lparr>cid = i, expr = e, ast = None, val = Fin 0, dependents = SetOf []\<rparr>"

text \<open>\<open>Set.add\<close>, \<open>Set.delete\<close> and \<open>Array.from\<close> on the elements of a set.\<close>

definition set_add :: "string \<Rightarrow> string list \<Rightarrow> string list" where
  "set_add x xs = (if x \<in> set xs then xs else xs @ [x])"

definition set_delete :: "string \<Rightarrow> string list \<Rightarrow> string list" where
  "set_delete x xs = removeAll x xs"

fun array_from :: "deps \<Rightarrow> string list" where
  "array_from (SetOf xs) = xs"
| "array_from PlainObj = []"

text \<open>
  An update map is a JavaScript object: assigning to a key it has keeps the key's
  place, a new key goes last. \<open>object_assign\<close> is \<open>Object.assign(target, source)\<close>.
\<close>

fun assign :: "string \<Rightarrow> jsval \<Rightarrow> updates \<Rightarrow> updates" where
  "assign k v [] = [(k, v)]"
| "assign k v (p # ps) = (if fst p = k then (k, v) # ps else p # assign k v ps)"

fun object_assign :: "updates \<Rightarrow> updates \<Rightarrow> updates" where
  "object_assign target [] = target"
| "object_assign target (p # ps) = object_assign (assign (fst p) (snd p) target) ps"

section \<open>Reference extraction and evaluation\<close>

fun traverseAst :: "'r ext \<Rightarrow> 'r \<Rightarrow> 'r ast \<Rightarrow> string list" where
  "traverseAst X baseCellRef (Num v) = []"
| "traverseAst X baseCellRef (Ref r) =
     (case cellref_parse X (toText_of X baseCellRef r) of
        Some cellRef \<Rightarrow> [toText X cellRef]
      | None \<Rightarrow> [])"
| "traverseAst X baseCellRef (App f kids) = concat (map (traverseAst X baseCellRef) kids)"

definition extractReferencedCellIds :: "'r ext \<Rightarrow> 'r ast \<Rightarrow> 'r \<Rightarrow> string list" where
  "extractReferencedCellIds X a baseCellRef = traverseAst X baseCellRef a"

text \<open>\<open>kids.map(kid => this.evalAst(...))\<close>: the first kid that throws ends the map.\<close>

fun map_throwing :: "('a \<Rightarrow> thrown + 'b) \<Rightarrow> 'a list \<Rightarrow> thrown + 'b list" where
  "map_throwing f [] = Inr []"
| "map_throwing f (x # xs) =
     (case f x of
        Inl e \<Rightarrow> Inl e
      | Inr v \<Rightarrow> (case map_throwing f xs of Inl e \<Rightarrow> Inl e | Inr vs \<Rightarrow> Inr (v # vs)))"

lemma map_throwing_cong [fundef_cong]:
  "xs = ys \<Longrightarrow> (\<And>x. x \<in> set ys \<Longrightarrow> f x = g x) \<Longrightarrow> map_throwing f xs = map_throwing g ys"
  by (induction ys arbitrary: xs) (auto split: sum.splits)

fun evalAst :: "'r ext \<Rightarrow> 'r cells \<Rightarrow> 'r ast \<Rightarrow> 'r \<Rightarrow> string \<Rightarrow> thrown + jsval" where
  "evalAst X cells (Num v) baseCellRef cellId = Inr v"
| "evalAst X cells (Ref r) baseCellRef cellId =
     (case cellref_parse X (toText_of X baseCellRef r) of
        Some cellRef \<Rightarrow>
          (case fmlookup cells (toText X cellRef) of
             Some cellInfo \<Rightarrow> Inr (val cellInfo)
           | None \<Rightarrow> Inr (Fin 0))
      | None \<Rightarrow> Inr (Fin 0))"
| "evalAst X cells (App f kids) baseCellRef cellId =
     (case map_throwing (\<lambda>kid. evalAst X cells kid baseCellRef cellId) kids of
        Inl e \<Rightarrow> Inl e
      | Inr kidValues \<Rightarrow>
          (case FNS_property f of
             Some (Function fn) \<Rightarrow> fn kidValues
           | _ \<Rightarrow> Inl (Unsupported_function f)))"

section \<open>Propagation to dependents\<close>

text \<open>
  \<open>updateDependentCells(cellId, processedCells, path)\<close> with the \<open>for\<close> loop over
  \<open>dependentIds\<close> as \<open>dependents_loop\<close>. The table and the set \<open>processedCells\<close>
  are mutated in place by the source, so both are passed in and returned; a throw
  returns nothing, since \<open>eval\<close> then discards the table. \<open>trace\<close> is a ghost
  component that the source does not have: each recomputation (the \<open>evalAst\<close> call
  inside the loop) appends the pair of the cell whose dependents are being walked and
  the dependent that is recomputed. Nothing reads it.
\<close>

type_synonym 'r pass = "'r cells \<times> string set \<times> (string \<times> string) list \<times> updates"

function updateDependentCells ::
    "'r ext \<Rightarrow> 'r cells \<Rightarrow> string set \<Rightarrow> (string \<times> string) list \<Rightarrow> string list \<Rightarrow> string
       \<Rightarrow> thrown + 'r pass"
  and dependents_loop ::
    "'r ext \<Rightarrow> 'r cells \<Rightarrow> string set \<Rightarrow> (string \<times> string) list \<Rightarrow> string list \<Rightarrow> string
       \<Rightarrow> string list \<Rightarrow> updates \<Rightarrow> thrown + 'r pass"
where
  "updateDependentCells X cells processedCells trace path cellId =
     (case fmlookup cells cellId of
        None \<Rightarrow> Inr (cells, processedCells, trace, [])
      | Some cellInfo \<Rightarrow>
          if ast cellInfo = None then Inr (cells, processedCells, trace, [])
          else if cellId \<in> processedCells then Inr (cells, processedCells, trace, [])
          else dependents_loop X cells processedCells trace path cellId
                 (array_from (dependents cellInfo)) [])"
| "dependents_loop X cells processedCells trace path cellId [] ups =
     Inr (cells, processedCells, trace, ups)"
| "dependents_loop X cells processedCells trace path cellId (dependentId # rest) ups =
     (case fmlookup cells dependentId of
        None \<Rightarrow> dependents_loop X cells processedCells trace path cellId rest ups
      | Some dependentCellInfo \<Rightarrow>
          (case ast dependentCellInfo of
             None \<Rightarrow> dependents_loop X cells processedCells trace path cellId rest ups
           | Some a \<Rightarrow>
               if dependentId \<in> set path then Inl Circular_ref_path
               else
                 (case cellref_parse X dependentId of
                    None \<Rightarrow> Inl (Invalid_cell_reference dependentId)
                  | Some dependentCellRef \<Rightarrow>
                      (case evalAst X cells a dependentCellRef dependentId of
                         Inl e \<Rightarrow> Inl e
                       | Inr dependentValue \<Rightarrow>
                           (case updateDependentCells X
                                   (fmupd dependentId
                                      (dependentCellInfo\<lparr>val := dependentValue\<rparr>) cells)
                                   (insert cellId processedCells)
                                   (trace @ [(cellId, dependentId)])
                                   (path @ [cellId]) dependentId of
                              Inl e \<Rightarrow> Inl e
                            | Inr (cells', processedCells', trace', recursiveUpdates) \<Rightarrow>
                                dependents_loop X cells' processedCells' trace' path cellId rest
                                  (object_assign (assign dependentId dependentValue ups)
                                     recursiveUpdates))))))"
  by pat_completeness auto

text \<open>
  Termination: a call that walks the dependents of a cell puts that cell into
  \<open>processedCells\<close> before it recurses, nothing leaves the set, and the keys of the
  table stay as they are; so the cells of the table outside the set run out.
\<close>

lemma pass_mono:
  "updateDependentCells_dependents_loop_dom (Inl (X, cells, P, tr, path, c)) \<Longrightarrow>
     updateDependentCells X cells P tr path c = Inr (cells', P', tr', u') \<Longrightarrow>
     fmdom' cells' = fmdom' cells \<and> P \<subseteq> P'"
  "updateDependentCells_dependents_loop_dom (Inr (X, cells, P, tr, path, c, ds, u)) \<Longrightarrow>
     dependents_loop X cells P tr path c ds u = Inr (cells', P', tr', u') \<Longrightarrow>
     fmdom' cells' = fmdom' cells \<and> P \<subseteq> P'"
proof (induction X cells P tr path c and X cells P tr path c ds u
    arbitrary: cells' P' tr' u' and cells' P' tr' u'
    rule: updateDependentCells_dependents_loop.pinduct)
  case (1 X cells P tr path c)
  then show ?case
    by (auto simp: updateDependentCells.psimps split: option.splits if_splits)
next
  case (2 X cells P tr path c u)
  then show ?case by (simp add: dependents_loop.psimps)
next
  case (3 X cells P tr path c d rest u)
  show ?case
  proof (cases "fmlookup cells d")
    case None
    with 3 show ?thesis by (simp add: dependents_loop.psimps)
  next
    case (Some dci)
    show ?thesis
    proof (cases "ast dci")
      case None
      with 3 Some show ?thesis by (simp add: dependents_loop.psimps)
    next
      case (Some a)
      note dci = \<open>fmlookup cells d = Some dci\<close>
      from "3.prems" "3.hyps" dci Some obtain r v c2 P2 t2 u2 where
        np: "d \<notin> set path" and r: "cellref_parse X d = Some r"
        and v: "evalAst X cells a r d = Inr v"
        and call: "updateDependentCells X (fmupd d (dci\<lparr>val := v\<rparr>) cells) (insert c P)
                     (tr @ [(c, d)]) (path @ [c]) d = Inr (c2, P2, t2, u2)"
        and rest: "dependents_loop X c2 P2 t2 path c rest (object_assign (assign d v u) u2)
                     = Inr (cells', P', tr', u')"
        by (auto simp: dependents_loop.psimps split: option.splits if_splits sum.splits)
      from "3.IH"(3)[OF dci Some np r v call]
      have a1: "fmdom' c2 = fmdom' (fmupd d (dci\<lparr>val := v\<rparr>) cells)"
        and a2: "insert c P \<subseteq> P2"
        by auto
      from "3.IH"(4)[OF dci Some np r v call _ _ _ rest]
      have b: "fmdom' cells' = fmdom' c2 \<and> P2 \<subseteq> P'" by simp
      from dci have "fmdom' (fmupd d (dci\<lparr>val := v\<rparr>) cells) = fmdom' cells"
        by (auto simp: fmdom'I)
      with a1 a2 b show ?thesis by auto
    qed
  qed
qed

termination updateDependentCells
proof (relation "measures [
      (\<lambda>x. case x of
              Inl (X, cells, P, tr, path, cellId) \<Rightarrow> 2 * card (fmdom' cells - P)
            | Inr (X, cells, P, tr, path, cellId, ds, ups) \<Rightarrow>
                2 * card (fmdom' cells - P - {cellId}) + 1),
      (\<lambda>x. case x of Inl _ \<Rightarrow> 0 | Inr (X, cells, P, tr, path, cellId, ds, ups) \<Rightarrow> length ds)]",
    goal_cases)
  case 1
  then show ?case by simp
next
  case (2 X cells P tr path c ci)
  then have "c \<in> fmdom' cells - P" by (auto simp: fmdom'I)
  then have "card (fmdom' cells - P) = Suc (card (fmdom' cells - P - {c}))"
    by (metis card_Suc_Diff1 finite_Diff finite_fmdom')
  then show ?case by simp
next
  case 3
  then show ?case by simp
next
  case 4
  then show ?case by simp
next
  case (5 X cells P tr path c d rest u dci a r v)
  have "fmdom' (fmupd d (dci\<lparr>val := v\<rparr>) cells) = fmdom' cells"
    using 5 by (auto simp: fmdom'I)
  moreover have "fmdom' cells - insert c P = fmdom' cells - P - {c}" by auto
  ultimately show ?case by simp
next
  case (6 X cells P tr path c d rest u dci a r v res c2 rest2 P2 rest3 t2 u2)
  then have call: "updateDependentCells X (fmupd d (dci\<lparr>val := v\<rparr>) cells) (insert c P)
                     (tr @ [(c, d)]) (path @ [c]) d = Inr (c2, P2, t2, u2)"
    by simp
  from pass_mono(1)[OF 6(10) call]
  have m: "fmdom' c2 = fmdom' (fmupd d (dci\<lparr>val := v\<rparr>) cells)" "insert c P \<subseteq> P2"
    by auto
  have "fmdom' (fmupd d (dci\<lparr>val := v\<rparr>) cells) = fmdom' cells"
    using 6 by (auto simp: fmdom'I)
  with m have "fmdom' c2 - P2 - {c} \<subseteq> fmdom' cells - P - {c}" by auto
  then have "card (fmdom' c2 - P2 - {c}) \<le> card (fmdom' cells - P - {c})"
    by (intro card_mono) auto
  then show ?case by auto
qed

section \<open>The edit operation\<close>

text \<open>
  \<open>JSON.parse(JSON.stringify(cells))\<close>, by which \<open>eval\<close> takes its snapshot and
  restores it. A number that is not finite is written as \<open>null\<close>, a wrapper
  object as the primitive it wraps, a \<open>Set\<close> as \<open>{}\<close>; a property whose value is
  undefined is left out and reads as undefined again. A cell reference inside a tree comes back as a plain object with
  the same fields, which is all that \<open>toText\<close> is taken to read of its argument.
\<close>

fun json_value :: "jsval \<Rightarrow> jsval" where
  "json_value (Fin x) = Fin x"
| "json_value PInf = Null"
| "json_value NInf = Null"
| "json_value NaN = Null"
| "json_value Null = Null"
| "json_value Undefined = Undefined"
| "json_value (Boolean b) = Boolean b"
| "json_value (Str s) = Str s"
| "json_value Object = Object"
| "json_value (Boxed v) = json_value v"

fun json_ast :: "'r ast \<Rightarrow> 'r ast" where
  "json_ast (Num v) = Num (json_value v)"
| "json_ast (Ref r) = Ref r"
| "json_ast (App f kids) = App f (map json_ast kids)"

definition json_cell :: "'r CellInfo \<Rightarrow> 'r CellInfo" where
  "json_cell c =
     \<lparr>cid = cid c, expr = expr c, ast = map_option json_ast (ast c), val = json_value (val c),
      dependents = PlainObj\<rparr>"

definition json_cells :: "'r cells \<Rightarrow> 'r cells" where
  "json_cells cells = fmmap json_cell cells"

text \<open>
  The \<open>forEach\<close> over \<open>previousReferencedCellIds\<close>: \<open>dependents.delete(cellId)\<close> on
  every record that exists. On a \<open>dependents\<close> that is not a \<open>Set\<close> there is no
  \<open>delete\<close> to call, which throws a \<open>TypeError\<close>.
\<close>

fun remove_from_previous :: "'r cells \<Rightarrow> string \<Rightarrow> string list \<Rightarrow> thrown + 'r cells" where
  "remove_from_previous cells cellId [] = Inr cells"
| "remove_from_previous cells cellId (previousReferencedCellId # rest) =
     (case fmlookup cells previousReferencedCellId of
        None \<Rightarrow> remove_from_previous cells cellId rest
      | Some previousReferencedCellInfo \<Rightarrow>
          (case dependents previousReferencedCellInfo of
             PlainObj \<Rightarrow> Inl Type_error
           | SetOf xs \<Rightarrow>
               remove_from_previous
                 (fmupd previousReferencedCellId
                    (previousReferencedCellInfo\<lparr>dependents := SetOf (set_delete cellId xs)\<rparr>)
                    cells)
                 cellId rest))"

text \<open>
  The \<open>for\<close> loop over \<open>referencedCellIds\<close>, which ends at the first identifier
  equal to \<open>cellId\<close> (\<open>break\<close>). A record that exists gets \<open>cellId\<close> added to its
  dependents (a fresh \<open>Set\<close> first when \<open>dependents\<close> is not one); otherwise a
  record \<open>new CellInfo(referencedCellId, '0')\<close> is put into the table.
\<close>

fun add_to_referenced :: "'r cells \<Rightarrow> string \<Rightarrow> string list \<Rightarrow> 'r cells" where
  "add_to_referenced cells cellId [] = cells"
| "add_to_referenced cells cellId (referencedCellId # rest) =
     (if referencedCellId = cellId then cells
      else
        (case fmlookup cells referencedCellId of
           Some referencedCellInfo \<Rightarrow>
             add_to_referenced
               (fmupd referencedCellId
                  (referencedCellInfo
                     \<lparr>dependents :=
                        SetOf (set_add cellId
                          (case dependents referencedCellInfo of
                             SetOf xs \<Rightarrow> xs
                           | PlainObj \<Rightarrow> []))\<rparr>)
                  cells)
               cellId rest
         | None \<Rightarrow>
             add_to_referenced
               (fmupd referencedCellId
                  ((new_CellInfo referencedCellId ''0'')\<lparr>dependents := SetOf [cellId]\<rparr>)
                  cells)
               cellId rest))"

datatype err_kind = SYNTAX | CIRCULAR_REF

text \<open>
  The body of the \<open>try\<close> block of \<open>eval\<close>: \<open>Inl\<close> is a throw, \<open>Inr\<close> the returned
  result with the table as the call leaves it and the ghost trace of the propagation.

  \<open>cellInfo\<close> is the record of the table when there is one, and then every
  assignment to it is an assignment to the table's record; otherwise it is a new
  object that enters the table only with \<open>this.cells = {...this.cells, [cellId]:
  cellInfo}\<close>. The loop over the referenced cells never makes a record for \<open>cellId\<close>
  itself, so in the second case the table has none until then. An existing record
  keeps its \<open>expr\<close>.
\<close>

definition eval_try ::
    "'r ext \<Rightarrow> 'r cells \<Rightarrow> string \<Rightarrow> string
       \<Rightarrow> thrown + ((err_kind + updates) \<times> 'r cells \<times> (string \<times> string) list)" where
  "eval_try X cells cellId expression =
     (case parse X expression cellId of
        None \<Rightarrow> Inr (Inl SYNTAX, cells, [])
      | Some a \<Rightarrow>
          (case cellref_parse X cellId of
             None \<Rightarrow> Inr (Inl SYNTAX, cells, [])
           | Some baseCellRef \<Rightarrow>
               (let cellInfo = (case fmlookup cells cellId of
                                  Some c \<Rightarrow> c
                                | None \<Rightarrow> new_CellInfo cellId expression);
                    previousAst = ast cellInfo;
                    cells1 = (case fmlookup cells cellId of
                                Some c \<Rightarrow> fmupd cellId (c\<lparr>ast := Some a\<rparr>) cells
                              | None \<Rightarrow> cells);
                    referencedCellIds = extractReferencedCellIds X a baseCellRef
                in
                  (case (case previousAst of
                           None \<Rightarrow> Inr cells1
                         | Some p \<Rightarrow>
                             remove_from_previous cells1 cellId
                               (extractReferencedCellIds X p baseCellRef)) of
                     Inl e \<Rightarrow> Inl e
                   | Inr cells2 \<Rightarrow>
                       (let circularRefFound = (cellId \<in> set referencedCellIds);
                            cells3 = add_to_referenced cells2 cellId referencedCellIds
                        in
                          if circularRefFound then Inl Circular_ref_direct
                          else
                            (case evalAst X cells3 a baseCellRef cellId of
                               Inl e \<Rightarrow> Inl e
                             | Inr result \<Rightarrow>
                                 (let cellInfo' =
                                        (case fmlookup cells3 cellId of
                                           Some c \<Rightarrow> c
                                         | None \<Rightarrow>
                                             (new_CellInfo cellId expression)\<lparr>ast := Some a\<rparr>);
                                      cells4 = fmupd cellId (cellInfo'\<lparr>val := result\<rparr>) cells3
                                  in
                                    (case updateDependentCells X cells4 {} [] [] cellId of
                                       Inl e \<Rightarrow> Inl e
                                     | Inr (cells5, processedCells, trace, updatedCells) \<Rightarrow>
                                         Inr (Inr (object_assign [(cellId, result)] updatedCells),
                                              cells5, trace)))))))))"

text \<open>
  \<open>eval(cellId, expr)\<close>: the result and the table after the call. Whatever the
  \<open>try\<close> block throws, the \<open>catch\<close> puts a JSON copy of the snapshot back and
  returns \<open>errResult('CIRCULAR_REF', 'CIRCULAR_REF')\<close>.
\<close>

definition eval :: "'r ext \<Rightarrow> 'r cells \<Rightarrow> string \<Rightarrow> string \<Rightarrow> (err_kind + updates) \<times> 'r cells" where
  "eval X cells cellId expression =
     (let oldCells = json_cells cells in
        case eval_try X cells cellId expression of
          Inl e \<Rightarrow> (Inl CIRCULAR_REF, json_cells oldCells)
        | Inr (res, cells', trace) \<Rightarrow> (res, cells'))"

section \<open>What the sources do not contain\<close>

text \<open>
  Modelled from the spec: the external parser and cell references (\<open>expr-parser.js\<close>),
  which are missing from the sources. The engine takes them as the parameter \<open>X\<close>;
  for runs on concrete inputs \<open>demo_ext\<close> is an instance over the cell identifiers of
  the spec (a lower-case column letter and a row number, here \<open>a1\<close> to \<open>j9\<close>), with
  a reference that is the identifier it names, and a parser that knows the formula
  texts used below: numbers, references, applications \<open>f(x,y)\<close>. The reference
  \<open>z0\<close> names no cell, \<open>sqrt\<close> is not a function of the library, and
  \<open>toString\<close> is a function that the library inherits.
\<close>

definition demo_cellref_parse :: "string \<Rightarrow> string option" where
  "demo_cellref_parse t =
     (if length t = 2 \<and> hd t \<in> set ''abcdefghij'' \<and> last t \<in> set ''123456789''
      then Some t else None)"

definition demo_formulas :: "(string \<times> string ast) list" where
  "demo_formulas =
     [(''1'', Num (Fin 1)), (''3'', Num (Fin 3)), (''10'', Num (Fin 10)),
      (''a1'', Ref ''a1''), (''b1'', Ref ''b1''), (''d1'', Ref ''d1''),
      (''+(a1,1)'', App ''+'' [Ref ''a1'', Num (Fin 1)]),
      (''+(b1,2)'', App ''+'' [Ref ''b1'', Num (Fin 2)]),
      (''+(b1,c1)'', App ''+'' [Ref ''b1'', Ref ''c1'']),
      (''+(z0,2)'', App ''+'' [Ref ''z0'', Num (Fin 2)]),
      (''sqrt(4)'', App ''sqrt'' [Num (Fin 4)]),
      (''+(1,sqrt(4))'', App ''+'' [Num (Fin 1), App ''sqrt'' [Num (Fin 4)]]),
      (''toString()'', App ''toString'' [])]"

definition demo_ext :: "string ext" where
  "demo_ext =
     \<lparr>parse = (\<lambda>expression cellId. map_of demo_formulas expression),
      cellref_parse = demo_cellref_parse,
      toText_of = (\<lambda>baseCellRef r. r),
      toText = (\<lambda>r. r)\<rparr>"

text \<open>The table after a sequence of edits \<open>(cellId, expr)\<close>, whatever each returns.\<close>

fun run :: "'r ext \<Rightarrow> 'r cells \<Rightarrow> (string \<times> string) list \<Rightarrow> 'r cells" where
  "run X cells [] = cells"
| "run X cells (e # es) = run X (snd (eval X cells (fst e) (snd e))) es"

text \<open>
  Modelled from the spec: the operation \<open>remove(cellId)\<close>, which is missing from the
  sources (the engine's class has \<open>eval\<close> only). The spec, section 4.4: it is
  ``equivalent to assigning an empty formula --- clears \<open>ast\<close> and resets \<open>value\<close>
  to 0, retracts all outgoing edges from \<open>cellId\<close> via [the] retraction step, then
  runs the Propagator so dependents see the cell read as 0''; the propagator, section
  4.3, ``walks the \<open>dependents\<close> set of \<open>originId\<close> [\<dots>] and, for every cell
  with an active formula, recomputes its value via the Evaluator and records the new
  value''; and an edit returns ``a mapping containing \<open>cellId\<close>'s new value merged
  with every value the Propagator recomputed''.

  The retraction step is the one of the sources. The propagator is the walk of the
  sources over the dependents of a cell, \<open>dependents_loop\<close>, started at the removed
  cell with nothing visited and an empty path: the propagator of the spec walks the
  dependents of its origin whether the origin has a formula or not, and the removed
  cell has none. (\<open>updateDependentCells\<close> is that walk behind a guard that returns
  at once for a cell without a tree; on a cell with a tree the two are the same.) For
  a cell without a record the spec says nothing; the table then stays as it is.
\<close>

definition remove :: "'r ext \<Rightarrow> 'r cells \<Rightarrow> string \<Rightarrow> thrown + (updates \<times> 'r cells)" where
  "remove X cells cellId =
     (case fmlookup cells cellId of
        None \<Rightarrow> Inr ([(cellId, Fin 0)], cells)
      | Some cellInfo \<Rightarrow>
          (let cells1 = fmupd cellId (cellInfo\<lparr>ast := None, val := Fin 0\<rparr>) cells
           in
             (case (case (ast cellInfo, cellref_parse X cellId) of
                      (Some p, Some baseCellRef) \<Rightarrow>
                        remove_from_previous cells1 cellId
                          (extractReferencedCellIds X p baseCellRef)
                    | _ \<Rightarrow> Inr cells1) of
                Inl e \<Rightarrow> Inl e
              | Inr cells2 \<Rightarrow>
                  (case dependents_loop X cells2 {} [] [] cellId
                          (case fmlookup cells2 cellId of
                             Some c \<Rightarrow> array_from (dependents c)
                           | None \<Rightarrow> [])
                          [] of
                     Inl e \<Rightarrow> Inl e
                   | Inr (cells3, processedCells, trace, updatedCells) \<Rightarrow>
                       Inr (object_assign [(cellId, Fin 0)] updatedCells, cells3)))))"

section \<open>Notions of the specification and of the proofs\<close>

text \<open>
  Invariant I1 of the spec (edge symmetry): for any two cells \<open>x\<close> and \<open>y\<close> of the
  table, \<open>y\<close>'s tree contains a reference resolving to \<open>x\<close> if and only if the
  dependents of \<open>x\<close> contain \<open>y\<close>.
\<close>

definition references :: "'r ext \<Rightarrow> 'r cells \<Rightarrow> string \<Rightarrow> string \<Rightarrow> bool" where
  "references X cells y x =
     (case fmlookup cells y of
        None \<Rightarrow> False
      | Some cy \<Rightarrow>
          (case (ast cy, cellref_parse X y) of
             (Some a, Some baseCellRef) \<Rightarrow> x \<in> set (extractReferencedCellIds X a baseCellRef)
           | _ \<Rightarrow> False))"

definition edge_symmetry :: "'r ext \<Rightarrow> 'r cells \<Rightarrow> bool" where
  "edge_symmetry X cells =
     (\<forall>x y. case (fmlookup cells x, fmlookup cells y) of
              (Some cx, Some cy) \<Rightarrow>
                references X cells y x = (y \<in> set (array_from (dependents cx)))
            | _ \<Rightarrow> True)"

text \<open>
  The ghost trace of the propagation pass that starts at a cell, and of the one an
  edit runs (empty when the pass throws or the edit does not get to it); and how
  often a trace recomputes a cell.
\<close>

definition propagation_trace :: "'r ext \<Rightarrow> 'r cells \<Rightarrow> string \<Rightarrow> (string \<times> string) list" where
  "propagation_trace X cells cellId =
     (case updateDependentCells X cells {} [] [] cellId of
        Inl e \<Rightarrow> []
      | Inr (cells', processedCells, trace, updatedCells) \<Rightarrow> trace)"

definition eval_trace :: "'r ext \<Rightarrow> 'r cells \<Rightarrow> string \<Rightarrow> string \<Rightarrow> (string \<times> string) list" where
  "eval_trace X cells cellId expression =
     (case eval_try X cells cellId expression of
        Inl e \<Rightarrow> []
      | Inr (res, cells', trace) \<Rightarrow> trace)"

definition recomputations :: "(string \<times> string) list \<Rightarrow> string \<Rightarrow> nat" where
  "recomputations trace d = length (filter (\<lambda>e. snd e = d) trace)"

text \<open>
  The diamond of the spec: \<open>d1\<close> depends on \<open>b1\<close> and \<open>c1\<close>, which both depend
  on \<open>a1\<close>; and the diamond with one more cell \<open>e1\<close>, which depends on \<open>d1\<close>.
\<close>

definition diamond :: "string cells" where
  "diamond =
     run demo_ext fmempty
       [(''a1'', ''1''), (''b1'', ''a1''), (''c1'', ''a1''), (''d1'', ''+(b1,c1)'')]"

definition diamond_e1 :: "string cells" where
  "diamond_e1 =
     run demo_ext fmempty
       [(''a1'', ''1''), (''b1'', ''a1''), (''c1'', ''a1''), (''d1'', ''+(b1,c1)''),
        (''e1'', ''d1'')]"

text \<open>
  Tables as edits make them: every dependents set is without duplicates (it is a
  \<open>Set\<close>), and a record without a tree holds the value 0.
\<close>

definition deps_distinct :: "'r cells \<Rightarrow> bool" where
  "deps_distinct cells =
     (\<forall>i c. fmlookup cells i = Some c \<longrightarrow> distinct (array_from (dependents c)))"

definition wf_cell :: "'r CellInfo \<Rightarrow> bool" where
  "wf_cell c = (distinct (array_from (dependents c)) \<and> (ast c = None \<longrightarrow> val c = Fin 0))"

definition wf_cells :: "'r cells \<Rightarrow> bool" where
  "wf_cells cells = (\<forall>i c. fmlookup cells i = Some c \<longrightarrow> wf_cell c)"

text \<open>
  A never-assigned cell: it has no record, or the record that a reference to it has
  made (no tree, value 0). \<open>zero_refs X S b t\<close> is the tree \<open>t\<close> of a cell with
  reference \<open>b\<close>, with the literal 0 in the place of every reference to a cell of
  \<open>S\<close>.
\<close>

definition unassigned :: "'r cells \<Rightarrow> string \<Rightarrow> bool" where
  "unassigned cells i =
     (case fmlookup cells i of
        None \<Rightarrow> True
      | Some c \<Rightarrow> ast c = None \<and> val c = Fin 0)"

fun zero_refs :: "'r ext \<Rightarrow> string set \<Rightarrow> 'r \<Rightarrow> 'r ast \<Rightarrow> 'r ast" where
  "zero_refs X S b (Num v) = Num v"
| "zero_refs X S b (Ref r) =
     (case resolve X b r of
        Some i \<Rightarrow> if i \<in> S then Num (Fin 0) else Ref r
      | None \<Rightarrow> Ref r)"
| "zero_refs X S b (App f kids) = App f (map (zero_refs X S b) kids)"

text \<open>
  References that do not resolve. \<open>zero_unresolvable X b t\<close> is the tree \<open>t\<close> with
  the literal 0 in the place of every reference that does not resolve against \<open>b\<close>;
  \<open>zeroing X\<close> is the parser of \<open>X\<close> followed by that replacement; and
  \<open>zero_tree X k cells\<close> is the table with the replacement made in the tree of the
  cell \<open>k\<close>.
\<close>

fun zero_unresolvable :: "'r ext \<Rightarrow> 'r \<Rightarrow> 'r ast \<Rightarrow> 'r ast" where
  "zero_unresolvable X b (Num v) = Num v"
| "zero_unresolvable X b (Ref r) =
     (case resolve X b r of
        None \<Rightarrow> Num (Fin 0)
      | Some i \<Rightarrow> Ref r)"
| "zero_unresolvable X b (App f kids) = App f (map (zero_unresolvable X b) kids)"

definition zeroing :: "'r ext \<Rightarrow> 'r ext" where
  "zeroing X =
     X\<lparr>parse := (\<lambda>expression cellId.
          case cellref_parse X cellId of
            None \<Rightarrow> parse X expression cellId
          | Some b \<Rightarrow> map_option (zero_unresolvable X b) (parse X expression cellId))\<rparr>"

definition zero_tree_cell :: "'r ext \<Rightarrow> string \<Rightarrow> string \<Rightarrow> 'r CellInfo \<Rightarrow> 'r CellInfo" where
  "zero_tree_cell X k i c =
     (if i = k then
        (case cellref_parse X k of
           Some b \<Rightarrow> c\<lparr>ast := map_option (zero_unresolvable X b) (ast c)\<rparr>
         | None \<Rightarrow> c)
      else c)"

definition zero_tree :: "'r ext \<Rightarrow> string \<Rightarrow> 'r cells \<Rightarrow> 'r cells" where
  "zero_tree X k cells = fmmap_keys (zero_tree_cell X k) cells"

text \<open>
  A tree that has in it, at any depth, the application of a name for which
  \<open>FNS[name]\<close> is not a function.
\<close>

fun applies_unsupported :: "'r ast \<Rightarrow> bool" where
  "applies_unsupported (Num v) = False"
| "applies_unsupported (Ref r) = False"
| "applies_unsupported (App f kids) =
     (\<not> is_function (FNS_property f) \<or> (\<exists>kid \<in> set kids. applies_unsupported kid))"

text \<open>
  The stages of an edit, for the proofs: the table once the edges of the previous
  tree are retracted (or the throw of that step), and the table with the record of
  the edited cell installed; the record that the loop over the referenced cells makes
  for a cell without one; and tables that differ in values only.
\<close>

definition retract_previous ::
    "'r ext \<Rightarrow> 'r cells \<Rightarrow> string \<Rightarrow> string \<Rightarrow> 'r ast \<Rightarrow> 'r \<Rightarrow> thrown + 'r cells" where
  "retract_previous X cells cellId expression a b =
     (case ast (case fmlookup cells cellId of
                  Some c \<Rightarrow> c
                | None \<Rightarrow> new_CellInfo cellId expression) of
        None \<Rightarrow>
          Inr (case fmlookup cells cellId of
                 Some c \<Rightarrow> fmupd cellId (c\<lparr>ast := Some a\<rparr>) cells
               | None \<Rightarrow> cells)
      | Some p \<Rightarrow>
          remove_from_previous
            (case fmlookup cells cellId of
               Some c \<Rightarrow> fmupd cellId (c\<lparr>ast := Some a\<rparr>) cells
             | None \<Rightarrow> cells)
            cellId (extractReferencedCellIds X p b))"

definition install :: "'r cells \<Rightarrow> string \<Rightarrow> string \<Rightarrow> 'r ast \<Rightarrow> jsval \<Rightarrow> 'r cells" where
  "install cells3 cellId expression a result =
     fmupd cellId
       ((case fmlookup cells3 cellId of
           Some c \<Rightarrow> c
         | None \<Rightarrow> (new_CellInfo cellId expression)\<lparr>ast := Some a\<rparr>)\<lparr>val := result\<rparr>)
       cells3"

definition placeholder :: "string \<Rightarrow> string \<Rightarrow> 'r CellInfo" where
  "placeholder r cellId =
     \<lparr>cid = r, expr = ''0'', ast = None, val = Fin 0, dependents = SetOf [cellId]\<rparr>"

definition same_structure :: "'r cells \<Rightarrow> 'r cells \<Rightarrow> bool" where
  "same_structure cells cells' =
     (\<forall>i. map_option (\<lambda>c. c\<lparr>val := Fin 0\<rparr>) (fmlookup cells' i)
            = map_option (\<lambda>c. c\<lparr>val := Fin 0\<rparr>) (fmlookup cells i))"

section \<open>Concrete tables\<close>

lemmas demo_defs = demo_ext_def demo_formulas_def demo_cellref_parse_def

lemmas eval_defs =
  eval_def eval_try_def new_CellInfo_def extractReferencedCellIds_def FNS_property_def
  FNS_def js_add_def arg_def
  set_add_def set_delete_def json_cells_def json_cell_def

lemma table_b1_a1:
  "run demo_ext fmempty [(''b1'', ''3''), (''a1'', ''+(b1,2)'')] =
     fmupd ''a1''
       \<lparr>cid = ''a1'', expr = ''+(b1,2)'', ast = Some (App ''+'' [Ref ''b1'', Num (Fin 2)]),
        val = Fin 5, dependents = SetOf []\<rparr>
       (fmupd ''b1''
          \<lparr>cid = ''b1'', expr = ''3'', ast = Some (Num (Fin 3)), val = Fin 3,
           dependents = SetOf [''a1'']\<rparr>
          fmempty)"
  by (simp add: eval_defs demo_defs)

lemma edge_symmetryI:
  assumes "\<And>x y cx cy. fmlookup cells x = Some cx \<Longrightarrow> fmlookup cells y = Some cy \<Longrightarrow>
             references X cells y x = (y \<in> set (array_from (dependents cx)))"
  shows "edge_symmetry X cells"
  unfolding edge_symmetry_def using assms by (auto split: option.splits)

lemma edge_symmetry_b1_a1:
  "edge_symmetry demo_ext (run demo_ext fmempty [(''b1'', ''3''), (''a1'', ''+(b1,2)'')])"
proof (rule edge_symmetryI)
  let ?T = "run demo_ext fmempty [(''b1'', ''3''), (''a1'', ''+(b1,2)'')]"
  fix x y cx cy
  assume x: "fmlookup ?T x = Some cx" and y: "fmlookup ?T y = Some cy"
  have keys: "\<And>k c. fmlookup ?T k = Some c \<Longrightarrow> k = ''a1'' \<or> k = ''b1''"
    unfolding table_b1_a1 by (simp split: if_splits)
  have r: "references demo_ext ?T ''a1'' ''a1'' = False"
    "references demo_ext ?T ''a1'' ''b1'' = True"
    "references demo_ext ?T ''b1'' ''a1'' = False"
    "references demo_ext ?T ''b1'' ''b1'' = False"
    by code_simp+
  have d: "fmlookup ?T ''a1'' = Some cx \<Longrightarrow> array_from (dependents cx) = []"
    "fmlookup ?T ''b1'' = Some cx \<Longrightarrow> array_from (dependents cx) = [''a1'']"
    unfolding table_b1_a1 by auto
  from keys[OF x] keys[OF y] x
  show "references demo_ext ?T y x = (y \<in> set (array_from (dependents cx)))"
    using r d by auto
qed

section \<open>The stages of an edit\<close>

declare updateDependentCells.simps [simp del]

lemma eval_try_stages:
  assumes "parse X expression cellId = Some a" "cellref_parse X cellId = Some b"
  shows "eval_try X cells cellId expression =
     (case retract_previous X cells cellId expression a b of
        Inl t \<Rightarrow> Inl t
      | Inr cells2 \<Rightarrow>
          if cellId \<in> set (extractReferencedCellIds X a b) then Inl Circular_ref_direct
          else
            (case evalAst X (add_to_referenced cells2 cellId (extractReferencedCellIds X a b))
                    a b cellId of
               Inl t \<Rightarrow> Inl t
             | Inr result \<Rightarrow>
                 (case updateDependentCells X
                         (install (add_to_referenced cells2 cellId
                                     (extractReferencedCellIds X a b))
                            cellId expression a result)
                         {} [] [] cellId of
                    Inl t \<Rightarrow> Inl t
                  | Inr (cells5, P, tr, u) \<Rightarrow>
                      Inr (Inr (object_assign [(cellId, result)] u), cells5, tr))))"
  by (simp only: eval_try_def Let_def retract_previous_def install_def assms option.case)

lemma eval_try_SYNTAX:
  "parse X expression cellId = None \<or> cellref_parse X cellId = None \<Longrightarrow>
   eval_try X cells cellId expression = Inr (Inl SYNTAX, cells, [])"
  unfolding eval_try_def by (auto split: option.splits)

lemma eval_try_success:
  assumes "eval_try X cells cellId expression = Inr (Inr ups, cells', tr)"
  obtains a b cells2 result P u where
    "parse X expression cellId = Some a" "cellref_parse X cellId = Some b"
    "retract_previous X cells cellId expression a b = Inr cells2"
    "cellId \<notin> set (extractReferencedCellIds X a b)"
    "evalAst X (add_to_referenced cells2 cellId (extractReferencedCellIds X a b)) a b cellId
       = Inr result"
    "updateDependentCells X
       (install (add_to_referenced cells2 cellId (extractReferencedCellIds X a b))
          cellId expression a result)
       {} [] [] cellId = Inr (cells', P, tr, u)"
    "ups = object_assign [(cellId, result)] u"
proof -
  from assms obtain a where a: "parse X expression cellId = Some a"
    by (cases "parse X expression cellId") (simp_all add: eval_try_SYNTAX)
  from assms obtain b where b: "cellref_parse X cellId = Some b"
    by (cases "cellref_parse X cellId") (simp_all add: eval_try_SYNTAX)
  from assms show thesis
    unfolding eval_try_stages[OF a b]
    by (auto split: sum.splits if_splits intro: that[OF a b])
qed

lemma eval_try_throws_if_evalAst_throws:
  assumes p: "parse X expression cellId = Some a" and b: "cellref_parse X cellId = Some b"
    and t: "\<And>cells. isl (evalAst X cells a b cellId)"
  shows "isl (eval_try X cells cellId expression)"
proof (cases "retract_previous X cells cellId expression a b")
  case (Inl e)
  then show ?thesis unfolding eval_try_stages[OF p b] by simp
next
  case (Inr cells2)
  from t[of "add_to_referenced cells2 cellId (extractReferencedCellIds X a b)"]
  obtain e where "evalAst X (add_to_referenced cells2 cellId (extractReferencedCellIds X a b))
                    a b cellId = Inl e"
    by (auto simp: isl_def)
  with Inr show ?thesis unfolding eval_try_stages[OF p b] by simp
qed

lemma eval_success:
  assumes "eval X cells cellId expression = (Inr ups, cells')"
  obtains tr where "eval_try X cells cellId expression = Inr (Inr ups, cells', tr)"
  using assms unfolding eval_def Let_def by (auto split: sum.splits)

section \<open>Rollback\<close>

lemma json_value_idem [simp]: "json_value (json_value v) = json_value v"
  by (induction v) simp_all

lemma json_ast_idem [simp]: "json_ast (json_ast t) = json_ast t"
  by (induction t) simp_all

lemma json_cells_idem: "json_cells (json_cells cells) = json_cells cells"
proof (rule fmap_ext)
  fix i
  show "fmlookup (json_cells (json_cells cells)) i = fmlookup (json_cells cells) i"
    by (cases "fmlookup cells i"; cases "ast (the (fmlookup cells i))")
       (simp_all add: json_cells_def json_cell_def)
qed

lemma eval_try_failure:
  assumes "eval_try X cells k expression = Inr (Inl kind, cells', tr)"
  shows "kind = SYNTAX \<and> cells' = cells"
proof (cases "parse X expression k = None \<or> cellref_parse X k = None")
  case True
  from eval_try_SYNTAX[OF this] assms show ?thesis by simp
next
  case False
  then obtain a b where "parse X expression k = Some a" "cellref_parse X k = Some b"
    by auto
  from eval_try_stages[OF this, of cells] assms show ?thesis
    by (auto split: sum.splits if_splits)
qed

text \<open>
  What a failed edit leaves: after \<open>SYNTAX\<close> the table of before; after
  \<open>CIRCULAR_REF\<close> its JSON copy, which has the same cells, each with its \<open>id\<close>
  and \<open>expr\<close>, its tree and its value as JSON keeps them, and no dependents.
\<close>

lemma eval_failed_table:
  "fst (eval X cells k expression) = Inl SYNTAX \<Longrightarrow> snd (eval X cells k expression) = cells"
  "fst (eval X cells k expression) = Inl CIRCULAR_REF \<Longrightarrow>
     snd (eval X cells k expression) = json_cells cells"
proof -
  show "snd (eval X cells k expression) = cells"
    if "fst (eval X cells k expression) = Inl SYNTAX"
  proof (cases "eval_try X cells k expression")
    case (Inl t)
    with that show ?thesis by (simp add: eval_def)
  next
    case (Inr r)
    obtain res cs tr where r: "r = (res, cs, tr)" by (cases r) auto
    with Inr that have "eval_try X cells k expression = Inr (Inl SYNTAX, cs, tr)"
      by (simp add: eval_def)
    from eval_try_failure[OF this] Inr r show ?thesis by (simp add: eval_def)
  qed
  show "snd (eval X cells k expression) = json_cells cells"
    if "fst (eval X cells k expression) = Inl CIRCULAR_REF"
  proof (cases "eval_try X cells k expression")
    case (Inl t)
    then show ?thesis by (simp add: eval_def json_cells_idem)
  next
    case (Inr r)
    obtain res cs tr where r: "r = (res, cs, tr)" by (cases r) auto
    with Inr that have "eval_try X cells k expression = Inr (Inl CIRCULAR_REF, cs, tr)"
      by (simp add: eval_def)
    from eval_try_failure[OF this] show ?thesis by simp
  qed
qed

lemma json_cells_lookup:
  "fmlookup (json_cells cells) i = map_option json_cell (fmlookup cells i)"
  by (simp add: json_cells_def)

lemma propagation_throw_is_CIRCULAR_REF:
  "eval_try X cells k expression = Inl t \<Longrightarrow>
   eval X cells k expression = (Inl CIRCULAR_REF, json_cells cells)"
  by (simp add: eval_def json_cells_idem)

text \<open>
  Claim C1 (rollback atomicity): after a call of \<open>eval\<close> that fails with
  \<open>CIRCULAR_REF\<close> or \<open>SYNTAX\<close> the table equals the table before the call, every
  record's \<open>expr\<close>, \<open>ast\<close>, \<open>value\<close> and dependents set included.

  The code does not do this. From the empty table, \<open>eval("b1", "3")\<close> and
  \<open>eval("a1", "+(b1,2)")\<close> leave \<open>b1\<close> with the dependents set \<open>{a1}\<close>. The call
  \<open>eval("a1", "a1")\<close> then fails with \<open>CIRCULAR_REF\<close>, and in the table it leaves
  the dependents of \<open>b1\<close> are the plain object \<open>{}\<close> that the JSON copy makes of the
  set: the edge from \<open>b1\<close> to \<open>a1\<close> is gone.
\<close>

theorem rollback_loses_dependents:
  "fst (eval demo_ext (run demo_ext fmempty [(''b1'', ''3''), (''a1'', ''+(b1,2)'')])
          ''a1'' ''a1'')
     = Inl CIRCULAR_REF \<and>
   map_option dependents
     (fmlookup (run demo_ext fmempty [(''b1'', ''3''), (''a1'', ''+(b1,2)'')]) ''b1'')
     = Some (SetOf [''a1'']) \<and>
   map_option dependents
     (fmlookup
        (snd (eval demo_ext (run demo_ext fmempty [(''b1'', ''3''), (''a1'', ''+(b1,2)'')])
                ''a1'' ''a1''))
        ''b1'')
     = Some PlainObj"
  by code_simp

text \<open>
  Claim C2 (a cycle found during propagation): the call fails with \<open>CIRCULAR_REF\<close>
  and the table is restored to its state before the call.

  After \<open>eval("a1", "b1")\<close> on the empty table, \<open>eval("b1", "a1")\<close> passes the
  direct check and throws from \<open>updateDependentCells\<close>, which finds \<open>b1\<close> on the
  path; the call does fail with \<open>CIRCULAR_REF\<close>. But the table it leaves is the JSON
  copy: the dependents of \<open>b1\<close>, the set \<open>{a1}\<close> before the call, are \<open>{}\<close>
  after it.
\<close>

theorem propagation_cycle_rollback_loses_dependents:
  "eval_try demo_ext (run demo_ext fmempty [(''a1'', ''b1'')]) ''b1'' ''a1''
     = Inl Circular_ref_path \<and>
   fst (eval demo_ext (run demo_ext fmempty [(''a1'', ''b1'')]) ''b1'' ''a1'')
     = Inl CIRCULAR_REF \<and>
   map_option dependents (fmlookup (run demo_ext fmempty [(''a1'', ''b1'')]) ''b1'')
     = Some (SetOf [''a1'']) \<and>
   map_option dependents
     (fmlookup (snd (eval demo_ext (run demo_ext fmempty [(''a1'', ''b1'')]) ''b1'' ''a1''))
        ''b1'')
     = Some PlainObj"
  by code_simp

text \<open>
  Claim C4 (edge symmetry, I1): the invariant holds after every successful operation
  and going into every operation, also after a failure that was rolled back.

  The table after \<open>eval("b1", "3")\<close> and \<open>eval("a1", "+(b1,2)")\<close> has the invariant.
  The failed call \<open>eval("a1", "a1")\<close> leaves a table without it: the tree of \<open>a1\<close>
  still refers to \<open>b1\<close>, and the dependents of \<open>b1\<close> no longer contain \<open>a1\<close>.
\<close>

theorem rollback_breaks_edge_symmetry:
  "edge_symmetry demo_ext (run demo_ext fmempty [(''b1'', ''3''), (''a1'', ''+(b1,2)'')]) \<and>
   fst (eval demo_ext (run demo_ext fmempty [(''b1'', ''3''), (''a1'', ''+(b1,2)'')])
          ''a1'' ''a1'')
     = Inl CIRCULAR_REF \<and>
   \<not> edge_symmetry demo_ext
       (snd (eval demo_ext (run demo_ext fmempty [(''b1'', ''3''), (''a1'', ''+(b1,2)'')])
               ''a1'' ''a1''))"
proof -
  let ?T = "run demo_ext fmempty [(''b1'', ''3''), (''a1'', ''+(b1,2)'')]"
  let ?T' = "snd (eval demo_ext ?T ''a1'' ''a1'')"
  have res: "fst (eval demo_ext ?T ''a1'' ''a1'') = Inl CIRCULAR_REF"
    by code_simp
  have refs: "references demo_ext ?T' ''a1'' ''b1''"
    by code_simp
  have b1: "fmlookup ?T' ''b1'' =
              Some \<lparr>cid = ''b1'', expr = ''3'', ast = Some (Num (Fin 3)), val = Fin 3,
                    dependents = PlainObj\<rparr>"
    by code_simp
  have a1: "fmlookup ?T' ''a1'' \<noteq> None"
    by code_simp
  have "\<not> edge_symmetry demo_ext ?T'"
  proof
    assume "edge_symmetry demo_ext ?T'"
    then have "case (fmlookup ?T' ''b1'', fmlookup ?T' ''a1'') of
                 (Some cx, Some cy) \<Rightarrow>
                   references demo_ext ?T' ''a1'' ''b1''
                     = (''a1'' \<in> set (array_from (dependents cx)))
               | _ \<Rightarrow> True"
      unfolding edge_symmetry_def by blast
    with refs b1 a1 show False by (auto split: option.splits)
  qed
  with edge_symmetry_b1_a1 res show ?thesis by blast
qed

section \<open>Self reference\<close>

text \<open>
  Claim C3: an edit whose formula refers, directly, to the edited cell itself fails
  with \<open>CIRCULAR_REF\<close>, whatever the table; so do \<open>eval("a1", "a1")\<close> and
  \<open>eval("a1", "+(a1,1)")\<close>. (The formula has a reference set once the parser has
  read it and the cell identifier is one.)
\<close>

theorem self_reference_rejected:
  "parse X expression cellId = Some a \<Longrightarrow> cellref_parse X cellId = Some b \<Longrightarrow>
   cellId \<in> set (extractReferencedCellIds X a b) \<Longrightarrow>
   fst (eval X cells cellId expression) = Inl CIRCULAR_REF"
  by (auto simp: eval_def eval_try_def Let_def split: option.splits sum.splits)

theorem self_reference_rejected_witness:
  "(\<forall>cells. fst (eval demo_ext cells ''a1'' ''a1'') = Inl CIRCULAR_REF) \<and>
   (\<forall>cells. fst (eval demo_ext cells ''a1'' ''+(a1,1)'') = Inl CIRCULAR_REF)"
proof -
  have p1: "parse demo_ext ''a1'' ''a1'' = Some (Ref ''a1'')"
    and p2: "parse demo_ext ''+(a1,1)'' ''a1'' = Some (App ''+'' [Ref ''a1'', Num (Fin 1)])"
    and b: "cellref_parse demo_ext ''a1'' = Some ''a1''"
    by (simp_all add: demo_defs)
  have r1: "''a1'' \<in> set (extractReferencedCellIds demo_ext (Ref ''a1'') ''a1'')"
    and r2: "''a1'' \<in> set (extractReferencedCellIds demo_ext
                (App ''+'' [Ref ''a1'', Num (Fin 1)]) ''a1'')"
    by (simp_all add: extractReferencedCellIds_def demo_defs)
  show ?thesis
    using self_reference_rejected [OF p1 b r1] self_reference_rejected [OF p2 b r2] by simp
qed

section \<open>The scenario of the specification\<close>

text \<open>
  Claim C9: from the empty table, \<open>evaluate("b1","3")\<close>, \<open>evaluate("a1","+(b1,2)")\<close>,
  \<open>evaluate("b1","10")\<close> and \<open>remove("b1")\<close> return \<open>{b1:3}\<close>, \<open>{a1:5}\<close>,
  \<open>{b1:10, a1:12}\<close> and \<open>{b1:0, a1:2}\<close>. The three edits are those of the
  sources; \<open>remove\<close> is the operation as the spec describes it, over the retraction
  step and the walk over the dependents of the sources.
\<close>

theorem scenario_results:
  "fst (eval demo_ext fmempty ''b1'' ''3'') = Inr [(''b1'', Fin 3)] \<and>
   fst (eval demo_ext (run demo_ext fmempty [(''b1'', ''3'')]) ''a1'' ''+(b1,2)'')
     = Inr [(''a1'', Fin 5)] \<and>
   fst (eval demo_ext (run demo_ext fmempty [(''b1'', ''3''), (''a1'', ''+(b1,2)'')])
          ''b1'' ''10'')
     = Inr [(''b1'', Fin 10), (''a1'', Fin 12)] \<and>
   map_sum id fst
     (remove demo_ext
        (run demo_ext fmempty [(''b1'', ''3''), (''a1'', ''+(b1,2)''), (''b1'', ''10'')]) ''b1'')
     = Inr [(''b1'', Fin 0), (''a1'', Fin 2)]"
  by code_simp

section \<open>Unsupported functions\<close>

text \<open>
  The names for which \<open>FNS[name]\<close> is a function: the six of the library and the
  eleven functions of \<open>Object.prototype\<close>.
\<close>

lemma is_function_FNS_property:
  "is_function (FNS_property f) \<longleftrightarrow>
     f \<in> set [''+'', ''-'', ''*'', ''/'', ''min'', ''max'',
              ''toString'', ''constructor'', ''isPrototypeOf'', ''toLocaleString'',
              ''valueOf'', ''hasOwnProperty'', ''propertyIsEnumerable'',
              ''__defineGetter__'', ''__defineSetter__'', ''__lookupGetter__'',
              ''__lookupSetter__'']"
  by (simp add: FNS_property_def FNS_def Object_prototype_def)

text \<open>
  An inherited function is called like one of the library: \<open>eval("a1", "toString()")\<close>
  succeeds with the string \<open>[object Null]\<close>, which \<open>+\<close> concatenates and the
  other functions read as NaN; \<open>constructor(1)\<close> is the wrapper object of 1;
  \<open>valueOf()\<close> throws a \<open>TypeError\<close>; and \<open>__proto__\<close> is not a function.
\<close>

lemma inherited_function_is_called:
  "fst (eval demo_ext fmempty ''a1'' ''toString()'') = Inr [(''a1'', Str Object_Null)]"
  "evalAst demo_ext fmempty (App ''+'' [App ''toString'' [], Num (Fin 1)]) ''a1'' ''a1''
     = Inr (Str (Then_text Object_Null (Number_text 1)))"
  "evalAst demo_ext fmempty (App ''*'' [App ''toString'' [], Num (Fin 1)]) ''a1'' ''a1''
     = Inr NaN"
  "evalAst demo_ext fmempty (App ''constructor'' [Num (Fin 1)]) ''a1'' ''a1''
     = Inr (Boxed (Fin 1))"
  "evalAst demo_ext fmempty (App ''valueOf'' []) ''a1'' ''a1'' = Inl Type_error"
  "evalAst demo_ext fmempty (App ''__proto__'' []) ''a1'' ''a1''
     = Inl (Unsupported_function ''__proto__'')"
  by code_simp+

lemma evalAst_App_unsupported:
  assumes f: "\<not> is_function (FNS_property f)"
  shows "evalAst X cells (App f kids) b c =
           (case map_throwing (\<lambda>kid. evalAst X cells kid b c) kids of
              Inl e \<Rightarrow> Inl e
            | Inr kidValues \<Rightarrow> Inl (Unsupported_function f))"
proof (cases "FNS_property f")
  case None
  then show ?thesis by (simp split: sum.splits)
next
  case (Some p)
  with f have "p = Not_function" by (cases p) simp_all
  with Some show ?thesis by (simp split: sum.splits)
qed

lemma map_throwing_Inr:
  "map_throwing f xs = Inr vs \<Longrightarrow> x \<in> set xs \<Longrightarrow> \<not> isl (f x)"
  by (induction xs arbitrary: vs) (auto split: sum.splits)

lemma evalAst_applies_unsupported:
  "applies_unsupported t \<Longrightarrow> isl (evalAst X cells t b c)"
proof (induction t)
  case (App f kids)
  show ?case
  proof (cases "map_throwing (\<lambda>kid. evalAst X cells kid b c) kids")
    case (Inl e)
    then show ?thesis by simp
  next
    case (Inr kidValues)
    have "\<not> applies_unsupported kid" if "kid \<in> set kids" for kid
      using App.IH[OF that] map_throwing_Inr[OF Inr that] by auto
    with App.prems have "\<not> is_function (FNS_property f)" by auto
    from evalAst_App_unsupported[OF this, of X cells kids b c] Inr show ?thesis by simp
  qed
qed simp_all

text \<open>
  Claim C7: evaluating an application of an unrecognised function name is a fatal
  error that aborts the evaluation of the cell and surfaces as an internal failure
  rather than as a typed \<open>SYNTAX\<close> or \<open>CIRCULAR_REF\<close> result.

  \<open>evalAst\<close> does throw. But \<open>eval\<close> catches whatever its \<open>try\<close> block throws
  and returns \<open>CIRCULAR_REF\<close>: the edit \<open>eval("a1", "sqrt(4)")\<close> of the empty table
  returns the typed result \<open>CIRCULAR_REF\<close>.
\<close>

theorem unsupported_function_counterexample:
  "fst (eval demo_ext fmempty ''a1'' ''sqrt(4)'') = Inl CIRCULAR_REF"
  by code_simp

text \<open>
  Claim C7 as amended: for a name \<open>f\<close> for which \<open>FNS[f]\<close> is not a function,
  \<open>evalAst\<close> on an application of \<open>f\<close> computes no value: it throws, the
  unsupported-function error for \<open>f\<close> once the arguments are evaluated (or what
  the evaluation of an argument throws). So does \<open>evalAst\<close> on a tree with such
  an application in it; and an edit whose formula is such a tree, on a cell
  identifier that is one, returns the typed result \<open>CIRCULAR_REF\<close>.
\<close>

theorem unsupported_function_is_circular_ref:
  "(\<not> is_function (FNS_property f) \<longrightarrow>
      isl (evalAst X cells (App f kids) b c) \<and>
      (map_throwing (\<lambda>kid. evalAst X cells kid b c) kids = Inr kidValues \<longrightarrow>
         evalAst X cells (App f kids) b c = Inl (Unsupported_function f))) \<and>
   (applies_unsupported t \<longrightarrow>
      isl (evalAst X cells t b c) \<and>
      (parse X expression cellId = Some t \<longrightarrow> cellref_parse X cellId = Some b' \<longrightarrow>
         fst (eval X cells' cellId expression) = Inl CIRCULAR_REF))"
proof (intro conjI impI)
  assume f: "\<not> is_function (FNS_property f)"
  show "isl (evalAst X cells (App f kids) b c)"
    unfolding evalAst_App_unsupported[OF f] by (simp split: sum.splits)
  show "evalAst X cells (App f kids) b c = Inl (Unsupported_function f)"
    if "map_throwing (\<lambda>kid. evalAst X cells kid b c) kids = Inr kidValues"
    unfolding evalAst_App_unsupported[OF f] using that by simp
next
  assume t: "applies_unsupported t"
  then show "isl (evalAst X cells t b c)" by (rule evalAst_applies_unsupported)
  assume "parse X expression cellId = Some t" "cellref_parse X cellId = Some b'"
  then have "isl (eval_try X cells' cellId expression)"
  proof (rule eval_try_throws_if_evalAst_throws)
    fix cells :: "'a cells"
    from t show "isl (evalAst X cells t b' cellId)" by (rule evalAst_applies_unsupported)
  qed
  then show "fst (eval X cells' cellId expression) = Inl CIRCULAR_REF"
    by (auto simp: eval_def isl_def)
qed

theorem unsupported_function_is_circular_ref_witness:
  "\<not> is_function (FNS_property ''sqrt'') \<and>
   evalAst demo_ext fmempty (App ''sqrt'' [Num (Fin 4)]) ''a1'' ''a1''
     = Inl (Unsupported_function ''sqrt'') \<and>
   applies_unsupported (App ''+'' [Num (Fin 1), App ''sqrt'' [Num (Fin 4)]] :: string ast) \<and>
   isl (evalAst demo_ext fmempty (App ''+'' [Num (Fin 1), App ''sqrt'' [Num (Fin 4)]])
          ''a1'' ''a1'') \<and>
   fst (eval demo_ext fmempty ''a1'' ''sqrt(4)'') = Inl CIRCULAR_REF \<and>
   fst (eval demo_ext fmempty ''a1'' ''+(1,sqrt(4))'') = Inl CIRCULAR_REF"
proof -
  let ?s = "App ''sqrt'' [Num (Fin 4)] :: string ast"
  let ?t = "App ''+'' [Num (Fin 1), ?s]"
  have f: "\<not> is_function (FNS_property ''sqrt'')"
    by (simp add: FNS_property_def FNS_def Object_prototype_def)
  then have u: "applies_unsupported ?s" "applies_unsupported ?t" by simp_all
  have k: "map_throwing (\<lambda>kid. evalAst demo_ext fmempty kid ''a1'' ''a1'') [Num (Fin 4)]
             = Inr [Fin 4]"
    by simp
  have p: "parse demo_ext ''sqrt(4)'' ''a1'' = Some ?s"
    "parse demo_ext ''+(1,sqrt(4))'' ''a1'' = Some ?t"
    and b: "cellref_parse demo_ext ''a1'' = Some ''a1''"
    by (simp_all add: demo_defs)
  from unsupported_function_is_circular_ref
         [of "''sqrt''" demo_ext fmempty "[Num (Fin 4)]" "''a1''" "''a1''" "[Fin 4]" ?s
            "''sqrt(4)''" "''a1''" "''a1''" fmempty]
       unsupported_function_is_circular_ref
         [of "''sqrt''" demo_ext fmempty "[Num (Fin 4)]" "''a1''" "''a1''" "[Fin 4]" ?t
            "''+(1,sqrt(4))''" "''a1''" "''a1''" fmempty]
       f u k p b
  show ?thesis by simp
qed

section \<open>Placeholder records\<close>

lemma remove_from_previous_None:
  "remove_from_previous cells c ps = Inr cells2 \<Longrightarrow>
   (fmlookup cells2 r = None) = (fmlookup cells r = None)"
proof (induction ps arbitrary: cells)
  case (Cons p ps)
  show ?case
  proof (cases "fmlookup cells p")
    case None
    with Cons show ?thesis by simp
  next
    case (Some pc)
    with Cons.prems obtain xs where xs: "dependents pc = SetOf xs"
      and rest: "remove_from_previous
                   (fmupd p (pc\<lparr>dependents := SetOf (set_delete c xs)\<rparr>) cells) c ps = Inr cells2"
      by (auto split: deps.splits)
    from Cons.IH[OF rest] Some show ?thesis by (cases "p = r") auto
  qed
qed simp

lemma retract_previous_None:
  assumes "retract_previous X cells cellId expression a b = Inr cells2"
    and "fmlookup cells r = None"
  shows "fmlookup cells2 r = None"
proof -
  let ?cells1 = "case fmlookup cells cellId of
                   Some c \<Rightarrow> fmupd cellId (c\<lparr>ast := Some a\<rparr>) cells | None \<Rightarrow> cells"
  have c1: "fmlookup ?cells1 r = None"
    using assms(2) by (cases "r = cellId") (auto split: option.splits)
  from assms(1) have "cells2 = ?cells1 \<or>
      (\<exists>ps. remove_from_previous ?cells1 cellId ps = Inr cells2)"
    unfolding retract_previous_def by (auto split: option.splits)
  with c1 show ?thesis by (auto simp: remove_from_previous_None)
qed

lemma add_to_referenced_keeps_placeholder:
  "fmlookup cells r = Some (placeholder r cellId) \<Longrightarrow>
   fmlookup (add_to_referenced cells cellId rs) r = Some (placeholder r cellId)"
proof (induction rs arbitrary: cells)
  case (Cons x rs)
  show ?case
  proof (cases "x = cellId")
    case True
    with Cons.prems show ?thesis by simp
  next
    case False
    show ?thesis
    proof (cases "x = r")
      case True
      with False Cons.prems
      have "add_to_referenced cells cellId (x # rs)
              = add_to_referenced (fmupd r (placeholder r cellId) cells) cellId rs"
        by (simp add: placeholder_def set_add_def)
      then show ?thesis by (simp add: Cons.IH)
    next
      case xr: False
      obtain cells1 where step: "add_to_referenced cells cellId (x # rs)
                                   = add_to_referenced cells1 cellId rs"
        and l: "fmlookup cells1 r = fmlookup cells r"
        using False xr by (cases "fmlookup cells x") auto
      with Cons.prems show ?thesis by (simp add: Cons.IH)
    qed
  qed
qed simp

lemma add_to_referenced_creates_placeholder:
  "cellId \<notin> set rs \<Longrightarrow> r \<in> set rs \<Longrightarrow> fmlookup cells r = None \<Longrightarrow>
   fmlookup (add_to_referenced cells cellId rs) r = Some (placeholder r cellId)"
proof (induction rs arbitrary: cells)
  case (Cons x rs)
  from Cons.prems have xc: "x \<noteq> cellId" and c: "cellId \<notin> set rs" by auto
  show ?case
  proof (cases "x = r")
    case True
    with xc Cons.prems(3)
    have "add_to_referenced cells cellId (x # rs)
            = add_to_referenced (fmupd r (placeholder r cellId) cells) cellId rs"
      by (simp add: placeholder_def new_CellInfo_def)
    then show ?thesis by (simp add: add_to_referenced_keeps_placeholder)
  next
    case False
    with Cons.prems have r: "r \<in> set rs" by auto
    obtain cells1 where step: "add_to_referenced cells cellId (x # rs)
                                 = add_to_referenced cells1 cellId rs"
      and l: "fmlookup cells1 r = fmlookup cells r"
      using False xc by (cases "fmlookup cells x") auto
    with Cons.prems(3) show ?thesis by (simp add: Cons.IH[OF c r])
  qed
qed simp

lemma pass_keeps_formula_less:
  "updateDependentCells X cells P tr path c = Inr (cells', P', tr', u') \<Longrightarrow>
     fmlookup cells r = Some ci \<Longrightarrow> ast ci = None \<Longrightarrow> fmlookup cells' r = Some ci"
  "dependents_loop X cells P tr path c ds u = Inr (cells', P', tr', u') \<Longrightarrow>
     fmlookup cells r = Some ci \<Longrightarrow> ast ci = None \<Longrightarrow> fmlookup cells' r = Some ci"
proof (induction X cells P tr path c and X cells P tr path c ds u
    arbitrary: cells' P' tr' u' and cells' P' tr' u'
    rule: updateDependentCells_dependents_loop.induct)
  case (1 X cells P tr path c)
  then show ?case
    by (auto simp: updateDependentCells.simps split: option.splits if_splits)
next
  case (2 X cells P tr path c u)
  then show ?case by simp
next
  case (3 X cells P tr path c d rest u)
  show ?case
  proof (cases "fmlookup cells d")
    case None
    with 3 show ?thesis by simp
  next
    case (Some dci)
    show ?thesis
    proof (cases "ast dci")
      case None
      with 3 Some show ?thesis by simp
    next
      case (Some a)
      note dci = \<open>fmlookup cells d = Some dci\<close>
      from "3.prems"(1) dci Some obtain b v c2 P2 t2 u2 where
        np: "d \<notin> set path" and b: "cellref_parse X d = Some b"
        and v: "evalAst X cells a b d = Inr v"
        and call: "updateDependentCells X (fmupd d (dci\<lparr>val := v\<rparr>) cells) (insert c P)
                     (tr @ [(c, d)]) (path @ [c]) d = Inr (c2, P2, t2, u2)"
        and rest: "dependents_loop X c2 P2 t2 path c rest (object_assign (assign d v u) u2)
                     = Inr (cells', P', tr', u')"
        by (auto split: option.splits if_splits sum.splits)
      from dci Some "3.prems"(2,3) have "d \<noteq> r" by auto
      with "3.prems"(2) have "fmlookup (fmupd d (dci\<lparr>val := v\<rparr>) cells) r = Some ci" by simp
      from "3.IH"(3)[OF dci Some np b v call this "3.prems"(3)]
      have "fmlookup c2 r = Some ci" .
      from "3.IH"(4)[OF dci Some np b v call _ _ _ rest this "3.prems"(3)]
      show ?thesis by simp
    qed
  qed
qed

text \<open>
  Claim C6: an edit that refers to a cell identifier without a record creates a
  placeholder record for it with empty formula text, absent tree, value 0 and the
  edited cell in its dependents.

  The formula text of the placeholder is not empty: the code creates it with
  \<open>new CellInfo(referencedCellId, '0')\<close>. After \<open>eval("a1", "+(b1,2)")\<close> on the empty
  table the record of \<open>b1\<close> has the formula text \<open>0\<close>.
\<close>

theorem placeholder_expr_counterexample:
  "map_option expr (fmlookup (snd (eval demo_ext fmempty ''a1'' ''+(b1,2)'')) ''b1'')
     = Some ''0'' \<and>
   map_option expr (fmlookup (snd (eval demo_ext fmempty ''a1'' ''+(b1,2)'')) ''b1'')
     \<noteq> Some []"
  by code_simp

text \<open>
  Claim C6 as amended: when an edit succeeds and its formula refers to a cell
  identifier that had no record, the table after the edit has a record for that
  identifier with the formula text \<open>0\<close>, no tree, the value 0 and exactly the edited
  cell in its dependents.
\<close>

theorem placeholder_created:
  assumes ev: "eval X cells cellId expression = (Inr ups, cells')"
    and p: "parse X expression cellId = Some a" and b: "cellref_parse X cellId = Some b"
    and r: "r \<in> set (extractReferencedCellIds X a b)" and n: "fmlookup cells r = None"
  shows "fmlookup cells' r =
           Some \<lparr>cid = r, expr = ''0'', ast = None, val = Fin 0, dependents = SetOf [cellId]\<rparr>"
proof -
  from ev obtain tr where "eval_try X cells cellId expression = Inr (Inr ups, cells', tr)"
    by (rule eval_success)
  then obtain cells2 result P u where
    ret: "retract_previous X cells cellId expression a b = Inr cells2"
    and nc: "cellId \<notin> set (extractReferencedCellIds X a b)"
    and pass: "updateDependentCells X
       (install (add_to_referenced cells2 cellId (extractReferencedCellIds X a b))
          cellId expression a result)
       {} [] [] cellId = Inr (cells', P, tr, u)"
    using p b by (elim eval_try_success) auto
  let ?cells3 = "add_to_referenced cells2 cellId (extractReferencedCellIds X a b)"
  from r nc have rc: "r \<noteq> cellId" by auto
  from retract_previous_None[OF ret n] have "fmlookup cells2 r = None" .
  from add_to_referenced_creates_placeholder[OF nc r this]
  have "fmlookup ?cells3 r = Some (placeholder r cellId)" .
  with rc have "fmlookup (install ?cells3 cellId expression a result) r
                  = Some (placeholder r cellId)"
    by (simp add: install_def)
  from pass_keeps_formula_less(1)[OF pass this]
  show ?thesis by (simp add: placeholder_def)
qed

theorem placeholder_created_witness:
  "fmlookup (snd (eval demo_ext fmempty ''a1'' ''+(b1,2)'')) ''b1'' =
     Some \<lparr>cid = ''b1'', expr = ''0'', ast = None, val = Fin 0, dependents = SetOf [''a1'']\<rparr>"
proof -
  have "fst (eval demo_ext fmempty ''a1'' ''+(b1,2)'') = Inr [(''a1'', Fin 2)]"
    by code_simp
  then have ev: "eval demo_ext fmempty ''a1'' ''+(b1,2)''
                   = (Inr [(''a1'', Fin 2)], snd (eval demo_ext fmempty ''a1'' ''+(b1,2)''))"
    by (metis prod.collapse)
  have p: "parse demo_ext ''+(b1,2)'' ''a1'' = Some (App ''+'' [Ref ''b1'', Num (Fin 2)])"
    and b: "cellref_parse demo_ext ''a1'' = Some ''a1''"
    by (simp_all add: demo_defs)
  have r: "''b1'' \<in> set (extractReferencedCellIds demo_ext
                             (App ''+'' [Ref ''b1'', Num (Fin 2)]) ''a1'')"
    by (simp add: extractReferencedCellIds_def demo_defs)
  have n: "fmlookup fmempty ''b1'' = (None :: string CellInfo option)" by simp
  from placeholder_created[OF ev p b r n] show ?thesis .
qed

section \<open>Invariants of propagation and of edits\<close>

text \<open>
  The trace is a ghost: a pass computes what it computes with the empty trace, and
  returns the trace it was given followed by what it appends.
\<close>

lemma trace_is_ghost:
  fixes tr :: "(string \<times> string) list"
  shows "\<forall>tr'. updateDependentCells X cells P tr' path c
           = map_sum id (\<lambda>(cs, P', t, u). (cs, P', tr' @ t, u))
               (updateDependentCells X cells P [] path c)"
    and "\<forall>tr'. dependents_loop X cells P tr' path c ds u
           = map_sum id (\<lambda>(cs, P', t, u). (cs, P', tr' @ t, u))
               (dependents_loop X cells P [] path c ds u)"
proof (induction X cells P tr path c and X cells P tr path c ds u
    rule: updateDependentCells_dependents_loop.induct)
  case (1 X cells P tr path c)
  show ?case
  proof (cases "fmlookup cells c")
    case None
    then show ?thesis by (simp add: updateDependentCells.simps)
  next
    case (Some ci)
    show ?thesis
    proof (cases "ast ci = None \<or> c \<in> P")
      case True
      with Some show ?thesis by (auto simp: updateDependentCells.simps)
    next
      case False
      then obtain a where a: "ast ci = Some a" "c \<notin> P" by auto
      show ?thesis
      proof
        fix tr'
        from Some a "1.IH"[OF Some, rule_format, of tr']
        show "updateDependentCells X cells P tr' path c
                = map_sum id (\<lambda>(cs, P', t, u). (cs, P', tr' @ t, u))
                    (updateDependentCells X cells P [] path c)"
          by (simp add: updateDependentCells.simps)
      qed
    qed
  qed
next
  case (2 X cells P tr path c u)
  show ?case by simp
next
  case (3 X cells P tr path c d rest u)
  show ?case
  proof (cases "fmlookup cells d")
    case None
    show ?thesis
    proof
      fix tr'
      from None "3.IH"(1)[OF None, rule_format, of tr']
      show "dependents_loop X cells P tr' path c (d # rest) u
              = map_sum id (\<lambda>(cs, P', t, u). (cs, P', tr' @ t, u))
                  (dependents_loop X cells P [] path c (d # rest) u)"
        by simp
    qed
  next
    case (Some dci)
    show ?thesis
    proof (cases "ast dci")
      case None
      show ?thesis
      proof
        fix tr'
        from None Some "3.IH"(2)[OF Some None, rule_format, of tr']
        show "dependents_loop X cells P tr' path c (d # rest) u
                = map_sum id (\<lambda>(cs, P', t, u). (cs, P', tr' @ t, u))
                    (dependents_loop X cells P [] path c (d # rest) u)"
          by simp
      qed
    next
      case (Some a)
      note dci = \<open>fmlookup cells d = Some dci\<close>
      show ?thesis
      proof (cases "d \<in> set path")
        case True
        with dci Some show ?thesis by simp
      next
        case np: False
        show ?thesis
        proof (cases "cellref_parse X d")
          case None
          with dci Some np show ?thesis by simp
        next
          case b: (Some b)
          show ?thesis
          proof (cases "evalAst X cells a b d")
            case (Inl e)
            with dci Some np b show ?thesis by simp
          next
            case (Inr v)
            let ?cells1 = "fmupd d (dci\<lparr>val := v\<rparr>) cells"
            let ?call = "\<lambda>t. updateDependentCells X ?cells1 (insert c P) t (path @ [c]) d"
            let ?pre = "\<lambda>t0. \<lambda>(cs, P', t, u). (cs, P', t0 @ t, u :: updates)"
            note ih1 = "3.IH"(3)[OF dci Some np b Inr, rule_format]
            have step: "dependents_loop X cells P t path c (d # rest) u
                  = (case ?call (t @ [(c, d)]) of
                       Inl e \<Rightarrow> Inl e
                     | Inr (cells', P', t', ru) \<Rightarrow>
                         dependents_loop X cells' P' t' path c rest
                           (object_assign (assign d v u) ru))" for t
              using dci Some np b Inr by simp
            show ?thesis
            proof (cases "?call []")
              case (Inl e)
              have "?call t = Inl e" for t
                using ih1[of t] Inl by simp
              then show ?thesis by (simp only: step) simp
            next
              case call: (Inr r)
              obtain c2 P2 t0 u2 where r: "r = (c2, P2, t0, u2)" by (cases r) auto
              have c: "?call t = Inr (c2, P2, t @ t0, u2)" for t
                using ih1[of t] call r by simp
              let ?u = "object_assign (assign d v u) u2"
              have "?call (tr @ [(c, d)]) = Inr (c2, P2, (tr @ [(c, d)]) @ t0, u2)"
                by (rule c)
              note ih2 = "3.IH"(4)[OF dci Some np b Inr this refl refl refl, rule_format]
              have s: "dependents_loop X cells P t path c (d # rest) u
                         = dependents_loop X c2 P2 ((t @ [(c, d)]) @ t0) path c rest ?u" for t
                by (simp only: step c) simp
              show ?thesis
              proof
                fix tr'
                have "dependents_loop X c2 P2 ((tr' @ [(c, d)]) @ t0) path c rest ?u
                        = map_sum id (?pre ((tr' @ [(c, d)]) @ t0))
                            (dependents_loop X c2 P2 [] path c rest ?u)"
                  by (rule ih2)
                moreover
                have "dependents_loop X c2 P2 (([] @ [(c, d)]) @ t0) path c rest ?u
                        = map_sum id (?pre (([] @ [(c, d)]) @ t0))
                            (dependents_loop X c2 P2 [] path c rest ?u)"
                  by (rule ih2)
                ultimately
                have "dependents_loop X c2 P2 ((tr' @ [(c, d)]) @ t0) path c rest ?u
                        = map_sum id (?pre tr')
                            (dependents_loop X c2 P2 (([] @ [(c, d)]) @ t0) path c rest ?u)"
                  by (cases "dependents_loop X c2 P2 [] path c rest ?u") auto
                then show "dependents_loop X cells P tr' path c (d # rest) u
                        = map_sum id (\<lambda>(cs, P', t, u). (cs, P', tr' @ t, u))
                            (dependents_loop X cells P [] path c (d # rest) u)"
                  by (simp only: s)
              qed
            qed
          qed
        qed
      qed
    qed
  qed
qed

lemma same_structure_refl: "same_structure cells cells"
  by (simp add: same_structure_def)

lemma same_structure_trans:
  "same_structure a b \<Longrightarrow> same_structure b c \<Longrightarrow> same_structure a c"
  by (simp add: same_structure_def)

lemma same_structure_val:
  "fmlookup cells d = Some c \<Longrightarrow> same_structure cells (fmupd d (c\<lparr>val := v\<rparr>) cells)"
  by (simp add: same_structure_def)

lemma same_structure_lookup:
  assumes "same_structure cells cells'" "fmlookup cells' i = Some c'"
  obtains c where "fmlookup cells i = Some c" "ast c = ast c'" "dependents c = dependents c'"
    "cid c = cid c'" "expr c = expr c'"
proof -
  from assms(1) have "map_option (\<lambda>c. c\<lparr>val := Fin 0\<rparr>) (fmlookup cells' i)
                        = map_option (\<lambda>c. c\<lparr>val := Fin 0\<rparr>) (fmlookup cells i)"
    unfolding same_structure_def by blast
  with assms(2)
  have m: "map_option (\<lambda>c. c\<lparr>val := Fin 0\<rparr>) (fmlookup cells i) = Some (c'\<lparr>val := Fin 0\<rparr>)"
    by simp
  then obtain c where c: "fmlookup cells i = Some c" and e: "c\<lparr>val := Fin 0\<rparr> = c'\<lparr>val := Fin 0\<rparr>"
    by auto
  from arg_cong[OF e, of ast] arg_cong[OF e, of dependents]
    arg_cong[OF e, of cid] arg_cong[OF e, of expr]
  have "ast c = ast c'" "dependents c = dependents c'" "cid c = cid c'" "expr c = expr c'"
    by simp_all
  with c show thesis by (rule that)
qed

lemma pass_same_structure:
  "updateDependentCells X cells P tr path c = Inr (cells', P', tr', u') \<Longrightarrow>
     same_structure cells cells'"
  "dependents_loop X cells P tr path c ds u = Inr (cells', P', tr', u') \<Longrightarrow>
     same_structure cells cells'"
proof (induction X cells P tr path c and X cells P tr path c ds u
    arbitrary: cells' P' tr' u' and cells' P' tr' u'
    rule: updateDependentCells_dependents_loop.induct)
  case (1 X cells P tr path c)
  then show ?case
    by (auto simp: updateDependentCells.simps same_structure_refl split: option.splits if_splits)
next
  case (2 X cells P tr path c u)
  then show ?case by (simp add: same_structure_refl)
next
  case (3 X cells P tr path c d rest u)
  show ?case
  proof (cases "fmlookup cells d")
    case None
    with 3 show ?thesis by simp
  next
    case (Some dci)
    show ?thesis
    proof (cases "ast dci")
      case None
      with 3 Some show ?thesis by simp
    next
      case (Some a)
      note dci = \<open>fmlookup cells d = Some dci\<close>
      from "3.prems"(1) dci Some obtain b v c2 P2 t2 u2 where
        np: "d \<notin> set path" and b: "cellref_parse X d = Some b"
        and v: "evalAst X cells a b d = Inr v"
        and call: "updateDependentCells X (fmupd d (dci\<lparr>val := v\<rparr>) cells) (insert c P)
                     (tr @ [(c, d)]) (path @ [c]) d = Inr (c2, P2, t2, u2)"
        and rest: "dependents_loop X c2 P2 t2 path c rest (object_assign (assign d v u) u2)
                     = Inr (cells', P', tr', u')"
        by (auto split: option.splits if_splits sum.splits)
      from "3.IH"(3)[OF dci Some np b v call]
      have "same_structure (fmupd d (dci\<lparr>val := v\<rparr>) cells) c2" .
      with same_structure_val[OF dci] have "same_structure cells c2"
        by (rule same_structure_trans)
      moreover from "3.IH"(4)[OF dci Some np b v call _ _ _ rest]
      have "same_structure c2 cells'" by simp
      ultimately show ?thesis by (rule same_structure_trans)
    qed
  qed
qed

lemma same_structure_deps_distinct:
  assumes "same_structure cells cells'" "deps_distinct cells"
  shows "deps_distinct cells'"
  unfolding deps_distinct_def
proof (intro allI impI)
  fix i c' assume "fmlookup cells' i = Some c'"
  with assms(1) obtain c where "fmlookup cells i = Some c" "dependents c = dependents c'"
    by (rule same_structure_lookup)
  with assms(2) show "distinct (array_from (dependents c'))"
    unfolding deps_distinct_def by metis
qed

text \<open>
  The trace of a propagation: what a call appends has no edge twice, the cell an
  appended edge starts from was not processed before the call and is processed after
  it, and within the loop over the dependents of \<open>c\<close> an appended edge from \<open>c\<close>
  goes to one of the dependents still to be walked.
\<close>

lemma pass_trace:
  "updateDependentCells X cells P tr path c = Inr (cells', P', tr', u') \<Longrightarrow>
     deps_distinct cells \<Longrightarrow>
     \<exists>new. tr' = tr @ new \<and> distinct new \<and> P \<subseteq> P' \<and>
       (\<forall>e \<in> set new. fst e \<notin> P \<and> fst e \<in> P')"
  "dependents_loop X cells P tr path c ds u = Inr (cells', P', tr', u') \<Longrightarrow>
     deps_distinct cells \<Longrightarrow> distinct ds \<Longrightarrow>
     \<exists>new. tr' = tr @ new \<and> distinct new \<and> P \<subseteq> P' \<and>
       (\<forall>e \<in> set new. fst e \<in> P' \<and>
          (fst e = c \<and> snd e \<in> set ds \<or> fst e \<noteq> c \<and> fst e \<notin> P))"
proof (induction X cells P tr path c and X cells P tr path c ds u
    arbitrary: cells' P' tr' u' and cells' P' tr' u'
    rule: updateDependentCells_dependents_loop.induct)
  case (1 X cells P tr path c)
  show ?case
  proof (cases "fmlookup cells c")
    case None
    with "1.prems" show ?thesis by (simp add: updateDependentCells.simps)
  next
    case (Some ci)
    show ?thesis
    proof (cases "ast ci = None \<or> c \<in> P")
      case True
      with "1.prems"(1) Some have "cells' = cells \<and> P' = P \<and> tr' = tr"
        by (auto simp: updateDependentCells.simps split: if_splits)
      then show ?thesis by simp
    next
      case False
      with "1.prems"(1) Some
      have loop: "dependents_loop X cells P tr path c (array_from (dependents ci)) []
                    = Inr (cells', P', tr', u')"
        by (auto simp: updateDependentCells.simps split: if_splits)
      from "1.prems"(2) Some have "distinct (array_from (dependents ci))"
        by (auto simp: deps_distinct_def)
      from "1.IH"[OF Some _ _ loop "1.prems"(2) this] False
      obtain new where "tr' = tr @ new" "distinct new" "P \<subseteq> P'"
        and e: "\<forall>e \<in> set new. fst e \<in> P' \<and>
             (fst e = c \<and> snd e \<in> set (array_from (dependents ci)) \<or> fst e \<noteq> c \<and> fst e \<notin> P)"
        by auto
      moreover from e False have "\<forall>e \<in> set new. fst e \<notin> P \<and> fst e \<in> P'" by auto
      ultimately show ?thesis by blast
    qed
  qed
next
  case (2 X cells P tr path c u)
  then show ?case by simp
next
  case (3 X cells P tr path c d rest u)
  from "3.prems"(3) have dr: "d \<notin> set rest" and drest: "distinct rest" by auto
  show ?case
  proof (cases "fmlookup cells d")
    case None
    with "3.prems" have "dependents_loop X cells P tr path c rest u = Inr (cells', P', tr', u')"
      by simp
    from "3.IH"(1)[OF None this "3.prems"(2) drest] show ?thesis by auto
  next
    case (Some dci)
    show ?thesis
    proof (cases "ast dci")
      case None
      with "3.prems" Some
      have "dependents_loop X cells P tr path c rest u = Inr (cells', P', tr', u')"
        by simp
      from "3.IH"(2)[OF Some None this "3.prems"(2) drest] show ?thesis by auto
    next
      case (Some a)
      note dci = \<open>fmlookup cells d = Some dci\<close>
      from "3.prems"(1) dci Some obtain b v c2 P2 t2 u2 where
        np: "d \<notin> set path" and b: "cellref_parse X d = Some b"
        and v: "evalAst X cells a b d = Inr v"
        and call: "updateDependentCells X (fmupd d (dci\<lparr>val := v\<rparr>) cells) (insert c P)
                     (tr @ [(c, d)]) (path @ [c]) d = Inr (c2, P2, t2, u2)"
        and rest: "dependents_loop X c2 P2 t2 path c rest (object_assign (assign d v u) u2)
                     = Inr (cells', P', tr', u')"
        by (auto split: option.splits if_splits sum.splits)
      have dd1: "deps_distinct (fmupd d (dci\<lparr>val := v\<rparr>) cells)"
        using same_structure_val[OF dci] "3.prems"(2) by (rule same_structure_deps_distinct)
      have dd2: "deps_distinct c2"
        using pass_same_structure(1)[OF call] dd1 by (rule same_structure_deps_distinct)
      from "3.IH"(3)[OF dci Some np b v call dd1]
      obtain new1 where t2: "t2 = tr @ [(c, d)] @ new1" and d1: "distinct new1"
        and s1: "insert c P \<subseteq> P2"
        and e1: "\<forall>e \<in> set new1. fst e \<notin> insert c P \<and> fst e \<in> P2"
        by auto
      from "3.IH"(4)[OF dci Some np b v call refl refl refl rest dd2 drest]
      obtain new2 where t': "tr' = t2 @ new2" and d2: "distinct new2" and s2: "P2 \<subseteq> P'"
        and e2: "\<forall>e \<in> set new2. fst e \<in> P' \<and>
                   (fst e = c \<and> snd e \<in> set rest \<or> fst e \<noteq> c \<and> fst e \<notin> P2)"
        by auto
      let ?new = "(c, d) # new1 @ new2"
      have "tr' = tr @ ?new" using t2 t' by simp
      moreover have "distinct ?new"
      proof -
        have "(c, d) \<notin> set new1" using e1 by force
        moreover have "(c, d) \<notin> set new2" using e2 dr by force
        moreover have "set new1 \<inter> set new2 = {}" using e1 e2 by force
        ultimately show ?thesis using d1 d2 by simp
      qed
      moreover have "P \<subseteq> P'" using s1 s2 by auto
      moreover have "\<forall>e \<in> set ?new. fst e \<in> P' \<and>
          (fst e = c \<and> snd e \<in> set (d # rest) \<or> fst e \<noteq> c \<and> fst e \<notin> P)"
        using e1 e2 s1 s2 by auto
      ultimately show ?thesis by blast
    qed
  qed
qed

lemma wf_cellsI: "(\<And>i c. fmlookup cells i = Some c \<Longrightarrow> wf_cell c) \<Longrightarrow> wf_cells cells"
  by (simp add: wf_cells_def)

lemma wf_cellsD: "wf_cells cells \<Longrightarrow> fmlookup cells i = Some c \<Longrightarrow> wf_cell c"
  by (simp add: wf_cells_def)

lemma wf_cells_fmupd: "wf_cells cells \<Longrightarrow> wf_cell c \<Longrightarrow> wf_cells (fmupd i c cells)"
  by (simp add: wf_cells_def)

lemma wf_cells_deps_distinct: "wf_cells cells \<Longrightarrow> deps_distinct cells"
  by (simp add: wf_cells_def wf_cell_def deps_distinct_def)

lemma wf_cells_json: "wf_cells cells \<Longrightarrow> wf_cells (json_cells cells)"
  by (auto simp: wf_cells_def wf_cell_def json_cells_def json_cell_def)

lemma wf_cells_remove_from_previous:
  "remove_from_previous cells c ps = Inr cells2 \<Longrightarrow> wf_cells cells \<Longrightarrow> wf_cells cells2"
proof (induction ps arbitrary: cells)
  case (Cons p ps)
  show ?case
  proof (cases "fmlookup cells p")
    case None
    with Cons show ?thesis by simp
  next
    case (Some pc)
    with Cons.prems(1) obtain xs where xs: "dependents pc = SetOf xs"
      and rest: "remove_from_previous
                   (fmupd p (pc\<lparr>dependents := SetOf (set_delete c xs)\<rparr>) cells) c ps = Inr cells2"
      by (auto split: deps.splits)
    from wf_cellsD[OF Cons.prems(2) Some] xs
    have "wf_cell (pc\<lparr>dependents := SetOf (set_delete c xs)\<rparr>)"
      by (simp add: wf_cell_def set_delete_def distinct_removeAll)
    with Cons.prems(2) show ?thesis
      by (intro Cons.IH[OF rest] wf_cells_fmupd)
  qed
qed simp

lemma wf_cells_retract_previous:
  assumes "retract_previous X cells cellId expression a b = Inr cells2" "wf_cells cells"
  shows "wf_cells cells2"
proof -
  let ?cells1 = "case fmlookup cells cellId of
                   Some c \<Rightarrow> fmupd cellId (c\<lparr>ast := Some a\<rparr>) cells | None \<Rightarrow> cells"
  have c1: "wf_cells ?cells1"
  proof (cases "fmlookup cells cellId")
    case (Some c)
    from wf_cellsD[OF assms(2) Some] have "wf_cell (c\<lparr>ast := Some a\<rparr>)"
      by (simp add: wf_cell_def)
    with assms(2) Some show ?thesis by (simp add: wf_cells_fmupd)
  qed (simp add: assms(2))
  from assms(1) have "cells2 = ?cells1 \<or>
      (\<exists>ps. remove_from_previous ?cells1 cellId ps = Inr cells2)"
    unfolding retract_previous_def by (auto split: option.splits)
  with c1 show ?thesis by (auto intro: wf_cells_remove_from_previous)
qed

lemma wf_cells_add_to_referenced:
  "wf_cells cells \<Longrightarrow> wf_cells (add_to_referenced cells cellId rs)"
proof (induction rs arbitrary: cells)
  case (Cons x rs)
  show ?case
  proof (cases "x = cellId")
    case True
    with Cons.prems show ?thesis by simp
  next
    case False
    show ?thesis
    proof (cases "fmlookup cells x")
      case None
      have "wf_cell ((new_CellInfo x ''0'')\<lparr>dependents := SetOf [cellId]\<rparr> :: 'a CellInfo)"
        by (simp add: wf_cell_def new_CellInfo_def)
      with Cons.prems have "wf_cells (fmupd x ((new_CellInfo x ''0'')\<lparr>dependents := SetOf [cellId]\<rparr>) cells)"
        by (simp add: wf_cells_fmupd)
      from Cons.IH[OF this] None False show ?thesis by simp
    next
      case (Some xc)
      let ?xc = "xc\<lparr>dependents := SetOf (set_add cellId
                     (case dependents xc of SetOf xs \<Rightarrow> xs | PlainObj \<Rightarrow> []))\<rparr>"
      from wf_cellsD[OF Cons.prems Some] have "wf_cell ?xc"
        by (auto simp: wf_cell_def set_add_def split: deps.splits)
      with Cons.prems have "wf_cells (fmupd x ?xc cells)"
        by (simp add: wf_cells_fmupd)
      from Cons.IH[OF this] Some False show ?thesis by simp
    qed
  qed
qed simp

lemma ast_remove_from_previous:
  "remove_from_previous cells c ps = Inr cells2 \<Longrightarrow>
   map_option ast (fmlookup cells2 i) = map_option ast (fmlookup cells i)"
proof (induction ps arbitrary: cells)
  case (Cons p ps)
  show ?case
  proof (cases "fmlookup cells p")
    case None
    with Cons show ?thesis by simp
  next
    case (Some pc)
    with Cons.prems(1) obtain xs where xs: "dependents pc = SetOf xs"
      and rest: "remove_from_previous
                   (fmupd p (pc\<lparr>dependents := SetOf (set_delete c xs)\<rparr>) cells) c ps = Inr cells2"
      by (auto split: deps.splits)
    from Cons.IH[OF rest] Some show ?thesis by (cases "p = i") auto
  qed
qed simp

lemma add_to_referenced_self:
  "fmlookup (add_to_referenced cells cellId rs) cellId = fmlookup cells cellId"
proof (induction rs arbitrary: cells)
  case (Cons x rs)
  show ?case
    by (cases "x = cellId"; cases "fmlookup cells x") (simp_all add: Cons.IH)
qed simp

lemma ast_retract_previous:
  assumes "retract_previous X cells cellId expression a b = Inr cells2"
  shows "map_option ast (fmlookup cells2 cellId)
           = (case fmlookup cells cellId of None \<Rightarrow> None | Some c \<Rightarrow> Some (Some a))"
proof -
  let ?cells1 = "case fmlookup cells cellId of
                   Some c \<Rightarrow> fmupd cellId (c\<lparr>ast := Some a\<rparr>) cells | None \<Rightarrow> cells"
  have c1: "map_option ast (fmlookup ?cells1 cellId)
              = (case fmlookup cells cellId of None \<Rightarrow> None | Some c \<Rightarrow> Some (Some a))"
    by (auto split: option.splits)
  from assms have "cells2 = ?cells1 \<or>
      (\<exists>ps. remove_from_previous ?cells1 cellId ps = Inr cells2)"
    unfolding retract_previous_def by (auto split: option.splits)
  with c1 show ?thesis by (auto simp: ast_remove_from_previous)
qed

lemma wf_cells_install:
  assumes "wf_cells cells3"
    and "\<And>c. fmlookup cells3 cellId = Some c \<Longrightarrow> ast c \<noteq> None"
  shows "wf_cells (install cells3 cellId expression a result)"
proof (cases "fmlookup cells3 cellId")
  case None
  have "wf_cell ((new_CellInfo cellId expression)\<lparr>ast := Some a, val := result\<rparr> :: 'a CellInfo)"
    by (simp add: wf_cell_def new_CellInfo_def)
  with assms(1) None show ?thesis by (simp add: install_def wf_cells_fmupd)
next
  case (Some c)
  from wf_cellsD[OF assms(1) Some] assms(2)[OF Some] have "wf_cell (c\<lparr>val := result\<rparr>)"
    by (auto simp: wf_cell_def)
  with assms(1) Some show ?thesis by (simp add: install_def wf_cells_fmupd)
qed

lemma wf_cells_pass:
  assumes "updateDependentCells X cells P tr path c = Inr (cells', P', tr', u')" "wf_cells cells"
  shows "wf_cells cells'"
proof (rule wf_cellsI)
  fix i c' assume l': "fmlookup cells' i = Some c'"
  from pass_same_structure(1)[OF assms(1)] l'
  obtain c0 where l: "fmlookup cells i = Some c0" and e: "ast c0 = ast c'"
    "dependents c0 = dependents c'"
    by (rule same_structure_lookup)
  from wf_cellsD[OF assms(2) l] have w: "wf_cell c0" .
  show "wf_cell c'"
  proof (cases "ast c'")
    case None
    with e have "ast c0 = None" by simp
    from pass_keeps_formula_less(1)[OF assms(1) l this] l' have "c' = c0" by simp
    with w show ?thesis by simp
  next
    case (Some a)
    with w e show ?thesis by (simp add: wf_cell_def)
  qed
qed

lemma wf_cells_eval:
  assumes "wf_cells cells"
  shows "wf_cells (snd (eval X cells cellId expression))"
proof (cases "eval_try X cells cellId expression")
  case (Inl e)
  then show ?thesis
    by (simp add: eval_def wf_cells_json assms)
next
  case (Inr r)
  obtain res cells' tr where r: "r = (res, cells', tr)" by (cases r) auto
  with Inr have s: "snd (eval X cells cellId expression) = cells'"
    by (simp add: eval_def)
  show ?thesis
  proof (cases res)
    case (Inl k)
    have "cells' = cells"
    proof (cases "parse X expression cellId = None \<or> cellref_parse X cellId = None")
      case True
      from eval_try_SYNTAX[OF this] Inr r show ?thesis by simp
    next
      case False
      then obtain a b where "parse X expression cellId = Some a" "cellref_parse X cellId = Some b"
        by auto
      from eval_try_stages[OF this, of cells] Inr r Inl show ?thesis
        by (auto split: sum.splits if_splits)
    qed
    with s assms show ?thesis by simp
  next
    case (Inr ups)
    with \<open>eval_try X cells cellId expression = Inr r\<close> r
    have "eval_try X cells cellId expression = Inr (Inr ups, cells', tr)" by simp
    then obtain a b cells2 result P u where
      ret: "retract_previous X cells cellId expression a b = Inr cells2"
      and pass: "updateDependentCells X
         (install (add_to_referenced cells2 cellId (extractReferencedCellIds X a b))
            cellId expression a result)
         {} [] [] cellId = Inr (cells', P, tr, u)"
      by (rule eval_try_success)
    let ?cells3 = "add_to_referenced cells2 cellId (extractReferencedCellIds X a b)"
    have w3: "wf_cells ?cells3"
      using wf_cells_retract_previous[OF ret assms] by (rule wf_cells_add_to_referenced)
    have "ast c \<noteq> None" if l3: "fmlookup ?cells3 cellId = Some c" for c
      using ast_retract_previous[OF ret] l3
      by (auto simp: add_to_referenced_self split: option.splits)
    then have "wf_cells (install ?cells3 cellId expression a result)"
      using w3 by (intro wf_cells_install)
    with pass s show ?thesis by (auto intro: wf_cells_pass)
  qed
qed

lemma wf_cells_run: "wf_cells cells \<Longrightarrow> wf_cells (run X cells es)"
  by (induction es arbitrary: cells) (simp_all add: wf_cells_eval)

lemma wf_cells_empty: "wf_cells fmempty"
  by (simp add: wf_cells_def)

section \<open>Recomputation during a propagation pass\<close>

text \<open>
  During one pass every edge from a cell to one of its dependents is walked at most
  once (the dependents sets being sets, without duplicates): \<open>processedCells\<close> holds
  the cells whose dependents were walked, not the cells that were recomputed.
\<close>

lemma propagation_trace_distinct:
  assumes dd: "deps_distinct cells"
  shows "distinct (propagation_trace X cells c)"
proof (cases "updateDependentCells X cells {} [] [] c")
  case (Inl e)
  then show ?thesis by (simp add: propagation_trace_def)
next
  case (Inr r)
  obtain cells' P' tr u where r: "r = (cells', P', tr, u)" by (cases r) auto
  from pass_trace(1)[OF Inr[unfolded r] dd] have "distinct tr" by auto
  with Inr r show ?thesis by (simp add: propagation_trace_def)
qed

text \<open>
  Claim C5: during one propagation pass each cell is recomputed at most once; in the
  diamond (\<open>d1\<close> depends on \<open>b1\<close> and \<open>c1\<close>, both depend on \<open>a1\<close>) an edit of
  \<open>a1\<close> triggers exactly one recomputation of \<open>d1\<close>, from the up-to-date values of
  both paths and not from a stale intermediate.

  The code does not do this. In the diamond with \<open>a1 = 1\<close>, the edit
  \<open>eval("a1", "10")\<close> recomputes \<open>d1\<close> twice: when the dependents of \<open>b1\<close> are
  walked, from the new \<open>b1\<close> and the old \<open>c1\<close> (11), and again when the dependents
  of \<open>c1\<close> are walked (20). With one more cell \<open>e1 = d1\<close> below the diamond the
  stale intermediate stays: \<open>e1\<close> is recomputed after the first recomputation of
  \<open>d1\<close> and not after the second, as \<open>d1\<close> is then among the processed cells. The
  edit returns and stores \<open>e1 = 11\<close> next to \<open>d1 = 20\<close>.
\<close>

theorem diamond_recomputed_twice_dependent_stale:
  "eval_trace demo_ext diamond ''a1'' ''10''
     = [(''a1'', ''b1''), (''b1'', ''d1''), (''a1'', ''c1''), (''c1'', ''d1'')] \<and>
   recomputations (eval_trace demo_ext diamond ''a1'' ''10'') ''d1'' = 2 \<and>
   eval_trace demo_ext diamond_e1 ''a1'' ''10''
     = [(''a1'', ''b1''), (''b1'', ''d1''), (''d1'', ''e1''), (''a1'', ''c1''),
        (''c1'', ''d1'')] \<and>
   fst (eval demo_ext diamond_e1 ''a1'' ''10'')
     = Inr [(''a1'', Fin 10), (''b1'', Fin 10), (''d1'', Fin 20), (''e1'', Fin 11),
            (''c1'', Fin 10)] \<and>
   map_option (\<lambda>c. (ast c, val c)) (fmlookup (snd (eval demo_ext diamond_e1 ''a1'' ''10'')) ''d1'')
     = Some (Some (App ''+'' [Ref ''b1'', Ref ''c1'']), Fin 20) \<and>
   map_option (\<lambda>c. (ast c, val c)) (fmlookup (snd (eval demo_ext diamond_e1 ''a1'' ''10'')) ''e1'')
     = Some (Some (Ref ''d1''), Fin 11)"
  by code_simp

section \<open>Cells that were never assigned\<close>

lemma formula_less_unassigned:
  "wf_cells cells \<Longrightarrow> fmlookup cells i = Some c \<Longrightarrow> ast c = None \<Longrightarrow> unassigned cells i"
  by (auto simp: unassigned_def dest: wf_cellsD simp: wf_cell_def)

lemma map_throwing_cong_set:
  "(\<And>x. x \<in> set xs \<Longrightarrow> f x = g x) \<Longrightarrow> map_throwing f xs = map_throwing g xs"
  by (rule map_throwing_cong) simp_all

lemma map_throwing_map: "map_throwing f (map h xs) = map_throwing (\<lambda>x. f (h x)) xs"
  by (induction xs) (simp_all split: sum.splits)

lemma evalAst_zero_refs:
  assumes "\<And>i. i \<in> S \<Longrightarrow> unassigned cells i"
  shows "evalAst X cells (zero_refs X S b t) b c = evalAst X cells t b c"
proof (induction t)
  case (Num v)
  show ?case by simp
next
  case (Ref r)
  show ?case
  proof (cases "cellref_parse X (toText_of X b r)")
    case None
    then show ?thesis by (simp add: resolve_def)
  next
    case (Some cr)
    show ?thesis
    proof (cases "toText X cr \<in> S")
      case True
      from assms[OF this] Some True show ?thesis
        by (auto simp: resolve_def unassigned_def split: option.splits)
    next
      case False
      with Some show ?thesis by (simp add: resolve_def)
    qed
  qed
next
  case (App f kids)
  have "map_throwing (\<lambda>kid. evalAst X cells kid b c) (map (zero_refs X S b) kids)
          = map_throwing (\<lambda>kid. evalAst X cells kid b c) kids"
    unfolding map_throwing_map by (rule map_throwing_cong_set) (rule App.IH)
  then show ?case by simp
qed

text \<open>
  Claim C8: a reference that resolves to a cell identifier without a record evaluates
  to 0, and a formula that refers to never-assigned cells evaluates to what the same
  formula evaluates to with those references replaced by the literal 0. A
  never-assigned cell has no record, or the placeholder record that another cell's
  formula made for it (no tree, value 0; by \<open>formula_less_unassigned\<close> every record
  without a tree is such a record in a table that edits have made).
\<close>

theorem unassigned_reads_zero:
  "(resolve X b r = Some i \<longrightarrow> fmlookup cells i = None \<longrightarrow>
      evalAst X cells (Ref r) b c = Inr (Fin 0)) \<and>
   ((\<forall>i \<in> S. unassigned cells i) \<longrightarrow>
      evalAst X cells (zero_refs X S b t) b c = evalAst X cells t b c)"
  by (auto simp: resolve_def intro: evalAst_zero_refs)

theorem unassigned_reads_zero_witness:
  "fmlookup (run demo_ext fmempty [(''a1'', ''+(b1,2)'')]) ''c1'' = None \<and>
   evalAst demo_ext (run demo_ext fmempty [(''a1'', ''+(b1,2)'')]) (Ref ''c1'') ''d1'' ''d1''
     = Inr (Fin 0) \<and>
   unassigned (run demo_ext fmempty [(''a1'', ''+(b1,2)'')]) ''b1'' \<and>
   unassigned (run demo_ext fmempty [(''a1'', ''+(b1,2)'')]) ''c1'' \<and>
   zero_refs demo_ext {''b1'', ''c1''} ''d1'' (App ''+'' [Ref ''b1'', Ref ''c1''])
     = App ''+'' [Num (Fin 0), Num (Fin 0)] \<and>
   evalAst demo_ext (run demo_ext fmempty [(''a1'', ''+(b1,2)'')])
       (App ''+'' [Num (Fin 0), Num (Fin 0)]) ''d1'' ''d1''
     = evalAst demo_ext (run demo_ext fmempty [(''a1'', ''+(b1,2)'')])
         (App ''+'' [Ref ''b1'', Ref ''c1'']) ''d1'' ''d1''"
proof -
  let ?T = "run demo_ext fmempty [(''a1'', ''+(b1,2)'')]"
  have r: "resolve demo_ext ''d1'' ''c1'' = Some ''c1''"
    by (simp add: resolve_def demo_defs)
  have n: "fmlookup ?T ''c1'' = None" by code_simp
  have u: "unassigned ?T ''b1''" "unassigned ?T ''c1''" by code_simp+
  have z: "zero_refs demo_ext {''b1'', ''c1''} ''d1'' (App ''+'' [Ref ''b1'', Ref ''c1''])
             = App ''+'' [Num (Fin 0), Num (Fin 0)]"
    by (simp add: resolve_def demo_defs)
  from unassigned_reads_zero[of demo_ext "''d1''" "''c1''" "''c1''" ?T "''d1''"
         "{''b1'', ''c1''}" "App ''+'' [Ref ''b1'', Ref ''c1'']"] r n u z
  show ?thesis by simp
qed

section \<open>References that do not resolve\<close>

lemma zeroing_simps [simp]:
  "cellref_parse (zeroing X) = cellref_parse X"
  "toText_of (zeroing X) = toText_of X"
  "toText (zeroing X) = toText X"
  by (simp_all add: zeroing_def)

lemma traverseAst_zeroing [simp]: "traverseAst (zeroing X) b t = traverseAst X b t"
  by (induction t) (simp_all cong: map_cong option.case_cong)

lemma evalAst_zeroing [simp]: "evalAst (zeroing X) cells t b c = evalAst X cells t b c"
proof (induction t)
  case (App f kids)
  have "map_throwing (\<lambda>kid. evalAst (zeroing X) cells kid b c) kids
          = map_throwing (\<lambda>kid. evalAst X cells kid b c) kids"
    by (rule map_throwing_cong_set) (rule App.IH)
  then show ?case by simp
qed (simp_all cong: option.case_cong)

lemma traverseAst_zero_unresolvable [simp]:
  "traverseAst X b (zero_unresolvable X b t) = traverseAst X b t"
proof (induction t)
  case (Ref r)
  show ?case by (cases "cellref_parse X (toText_of X b r)") (simp_all add: resolve_def)
next
  case (App f kids)
  then show ?case by (simp add: comp_def cong: map_cong)
qed simp

lemma evalAst_zero_unresolvable [simp]:
  "evalAst X cells (zero_unresolvable X b t) b c = evalAst X cells t b c"
proof (induction t)
  case (Ref r)
  show ?case by (cases "cellref_parse X (toText_of X b r)") (simp_all add: resolve_def)
next
  case (App f kids)
  have "map_throwing (\<lambda>kid. evalAst X cells kid b c) (map (zero_unresolvable X b) kids)
          = map_throwing (\<lambda>kid. evalAst X cells kid b c) kids"
    unfolding map_throwing_map by (rule map_throwing_cong_set) (rule App.IH)
  then show ?case by simp
qed simp

lemma zero_unresolvable_idem [simp]:
  "zero_unresolvable X b (zero_unresolvable X b t) = zero_unresolvable X b t"
proof (induction t)
  case (Ref r)
  show ?case by (cases "resolve X b r") simp_all
qed simp_all

lemma zero_tree_cell_fields [simp]:
  "val (zero_tree_cell X k i c) = val c"
  "dependents (zero_tree_cell X k i c) = dependents c"
  "ast c = None \<Longrightarrow> ast (zero_tree_cell X k i c) = None"
  "ast c = Some a \<Longrightarrow> ast (zero_tree_cell X k i c) \<noteq> None"
  by (simp_all add: zero_tree_cell_def split: option.splits)

lemma zero_tree_cell_idem [simp]:
  "zero_tree_cell X k i (zero_tree_cell X k i c) = zero_tree_cell X k i c"
  by (cases "ast c") (simp_all add: zero_tree_cell_def split: option.splits)

lemma zero_tree_idem [simp]: "zero_tree X k (zero_tree X k cells) = zero_tree X k cells"
  by (rule fmap_ext) (simp add: zero_tree_def option.map_comp comp_def)

lemma zero_tree_lookup [simp]:
  "fmlookup (zero_tree X k cells) i = map_option (zero_tree_cell X k i) (fmlookup cells i)"
  by (simp add: zero_tree_def)

lemma zero_tree_fmupd:
  "zero_tree X k (fmupd i c cells) = fmupd i (zero_tree_cell X k i c) (zero_tree X k cells)"
  by (rule fmap_ext) simp

lemma evalAst_zero_tree [simp]:
  "evalAst X (zero_tree X k cells) t b c = evalAst X cells t b c"
proof (induction t)
  case (Ref r)
  show ?case
    by (cases "cellref_parse X (toText_of X b r)")
       (simp_all split: option.splits)
next
  case (App f kids)
  have "map_throwing (\<lambda>kid. evalAst X (zero_tree X k cells) kid b c) kids
          = map_throwing (\<lambda>kid. evalAst X cells kid b c) kids"
    by (rule map_throwing_cong_set) (rule App.IH)
  then show ?case by simp
qed simp

lemma zero_tree_cell_updates:
  "zero_tree_cell X k i (c\<lparr>dependents := d\<rparr>) = (zero_tree_cell X k i c)\<lparr>dependents := d\<rparr>"
  "zero_tree_cell X k i (c\<lparr>val := v\<rparr>) = (zero_tree_cell X k i c)\<lparr>val := v\<rparr>"
  by (cases c; simp add: zero_tree_cell_def split: option.splits)+

lemma zero_tree_remove_from_previous:
  "remove_from_previous (zero_tree X k cells) c ps
     = map_sum id (zero_tree X k) (remove_from_previous cells c ps)"
proof (induction ps arbitrary: cells)
  case (Cons p ps)
  show ?case
  proof (cases "fmlookup cells p")
    case None
    then show ?thesis by (simp add: Cons.IH)
  next
    case (Some pc)
    show ?thesis
    proof (cases "dependents pc")
      case PlainObj
      with Some show ?thesis by simp
    next
      case (SetOf xs)
      have "fmupd p ((zero_tree_cell X k p pc)\<lparr>dependents := SetOf (set_delete c xs)\<rparr>)
                (zero_tree X k cells)
              = zero_tree X k (fmupd p (pc\<lparr>dependents := SetOf (set_delete c xs)\<rparr>) cells)"
        by (simp add: zero_tree_fmupd zero_tree_cell_updates)
      with Some SetOf show ?thesis
        by (simp add: Cons.IH)
    qed
  qed
qed simp

lemma zero_tree_add_to_referenced:
  "add_to_referenced (zero_tree X k cells) c rs = zero_tree X k (add_to_referenced cells c rs)"
proof (induction rs arbitrary: cells)
  case (Cons x rs)
  show ?case
  proof (cases "x = c")
    case True
    then show ?thesis by simp
  next
    case False
    show ?thesis
    proof (cases "fmlookup cells x")
      case None
      have "fmupd x ((new_CellInfo x ''0'')\<lparr>dependents := SetOf [c]\<rparr>) (zero_tree X k cells)
              = zero_tree X k (fmupd x ((new_CellInfo x ''0'')\<lparr>dependents := SetOf [c]\<rparr>) cells)"
        by (simp add: zero_tree_fmupd zero_tree_cell_def new_CellInfo_def split: option.splits)
      with None False show ?thesis
        by (simp add: Cons.IH)
    next
      case (Some xc)
      let ?d = "SetOf (set_add c (case dependents xc of SetOf xs \<Rightarrow> xs | PlainObj \<Rightarrow> []))"
      have "fmupd x ((zero_tree_cell X k x xc)\<lparr>dependents := ?d\<rparr>) (zero_tree X k cells)
              = zero_tree X k (fmupd x (xc\<lparr>dependents := ?d\<rparr>) cells)"
        by (simp add: zero_tree_fmupd zero_tree_cell_updates)
      with Some False show ?thesis
        by (simp add: Cons.IH)
    qed
  qed
qed simp

lemma zero_tree_cell_ast:
  assumes "ast c = Some a" "cellref_parse X i = Some b"
  shows "\<exists>a'. ast (zero_tree_cell X k i c) = Some a' \<and>
           (\<forall>cells. evalAst X cells a' b i = evalAst X cells a b i)"
  using assms by (auto simp: zero_tree_cell_def)

lemma zero_tree_pass:
  "updateDependentCells (zeroing X) (zero_tree X k cells) P tr path c
     = map_sum id (\<lambda>(cs, P', t, u). (zero_tree X k cs, P', t, u))
         (updateDependentCells X cells P tr path c)"
  "dependents_loop (zeroing X) (zero_tree X k cells) P tr path c ds u
     = map_sum id (\<lambda>(cs, P', t, u). (zero_tree X k cs, P', t, u))
         (dependents_loop X cells P tr path c ds u)"
proof (induction X cells P tr path c and X cells P tr path c ds u
    rule: updateDependentCells_dependents_loop.induct)
  case (1 X cells P tr path c)
  show ?case
  proof (cases "fmlookup cells c")
    case None
    then show ?thesis by (simp add: updateDependentCells.simps)
  next
    case (Some ci)
    show ?thesis
    proof (cases "ast ci = None \<or> c \<in> P")
      case True
      with Some show ?thesis by (auto simp: updateDependentCells.simps)
    next
      case False
      then obtain a where "ast ci = Some a" and "c \<notin> P" by auto
      with Some "1.IH"[OF Some] show ?thesis
        by (simp add: updateDependentCells.simps)
    qed
  qed
next
  case (2 X cells P tr path c u)
  show ?case by simp
next
  case (3 X cells P tr path c d rest u)
  show ?case
  proof (cases "fmlookup cells d")
    case None
    with "3.IH"(1)[OF None] show ?thesis by simp
  next
    case (Some dci)
    show ?thesis
    proof (cases "ast dci")
      case None
      with "3.IH"(2)[OF Some None] Some show ?thesis by simp
    next
      case (Some a)
      note dci = \<open>fmlookup cells d = Some dci\<close>
      show ?thesis
      proof (cases "d \<in> set path")
        case True
        with dci Some show ?thesis by (auto split: option.splits)
      next
        case np: False
        show ?thesis
        proof (cases "cellref_parse X d")
          case None
          with dci Some np show ?thesis by (auto split: option.splits)
        next
          case b: (Some b)
          from zero_tree_cell_ast[OF Some b, of k] obtain a' where
            a': "ast (zero_tree_cell X k d dci) = Some a'"
            and ev: "\<And>cells. evalAst X cells a' b d = evalAst X cells a b d"
            by blast
          show ?thesis
          proof (cases "evalAst X cells a b d")
            case (Inl e)
            with dci Some np b a' ev show ?thesis by simp
          next
            case (Inr v)
            have upd: "fmupd d ((zero_tree_cell X k d dci)\<lparr>val := v\<rparr>) (zero_tree X k cells)
                         = zero_tree X k (fmupd d (dci\<lparr>val := v\<rparr>) cells)"
              by (simp add: zero_tree_fmupd zero_tree_cell_updates)
            note ih1 = "3.IH"(3)[OF dci Some np b Inr]
            show ?thesis
            proof (cases "updateDependentCells X (fmupd d (dci\<lparr>val := v\<rparr>) cells) (insert c P)
                            (tr @ [(c, d)]) (path @ [c]) d")
              case (Inl e)
              with dci Some np b a' ev Inr upd ih1 show ?thesis by simp
            next
              case call: (Inr r)
              obtain c2 P2 t2 u2 where r: "r = (c2, P2, t2, u2)" by (cases r) auto
              note ih2 = "3.IH"(4)[OF dci Some np b Inr call[unfolded r] refl refl refl]
              from dci Some np b a' ev Inr upd ih1 call r ih2 show ?thesis by simp
            qed
          qed
        qed
      qed
    qed
  qed
qed

lemma zero_tree_lookup_other: "i \<noteq> k \<Longrightarrow> map_option (zero_tree_cell X k i) oc = oc"
  by (cases oc) (simp_all add: zero_tree_cell_def)

lemma zero_tree_absent: "fmlookup cells k = None \<Longrightarrow> zero_tree X k cells = cells"
proof (rule fmap_ext)
  fix i assume "fmlookup cells k = None"
  then show "fmlookup (zero_tree X k cells) i = fmlookup cells i"
    by (cases "i = k") (simp_all add: zero_tree_lookup_other)
qed

lemma fmupd_zero_tree: "fmupd k c (zero_tree X k cells) = fmupd k c cells"
proof (rule fmap_ext)
  fix i show "fmlookup (fmupd k c (zero_tree X k cells)) i = fmlookup (fmupd k c cells) i"
    by (cases "i = k") (simp_all add: zero_tree_lookup_other)
qed

lemma zero_tree_retract_previous:
  assumes b: "cellref_parse X k = Some b"
  shows "retract_previous (zeroing X) cells k expression (zero_unresolvable X b a) b
           = map_sum id (zero_tree X k) (retract_previous X cells k expression a b)"
proof (cases "fmlookup cells k")
  case None
  then show ?thesis
    by (simp add: retract_previous_def new_CellInfo_def zero_tree_absent)
next
  case (Some c0)
  have c1: "fmupd k (c0\<lparr>ast := Some (zero_unresolvable X b a)\<rparr>) cells
              = zero_tree X k (fmupd k (c0\<lparr>ast := Some a\<rparr>) cells)"
    by (simp add: zero_tree_fmupd fmupd_zero_tree zero_tree_cell_def b)
  show ?thesis
  proof (cases "ast c0")
    case None
    with Some c1 show ?thesis by (simp add: retract_previous_def)
  next
    case (Some p)
    with \<open>fmlookup cells k = Some c0\<close> c1 show ?thesis
      by (simp add: retract_previous_def extractReferencedCellIds_def
            zero_tree_remove_from_previous)
  qed
qed

lemma zero_tree_install:
  assumes b: "cellref_parse X k = Some b"
  shows "install (zero_tree X k cells3) k expression (zero_unresolvable X b a) result
           = zero_tree X k (install cells3 k expression a result)"
proof (cases "fmlookup cells3 k")
  case None
  then show ?thesis
    by (simp add: install_def zero_tree_fmupd zero_tree_cell_def b new_CellInfo_def)
next
  case (Some c3)
  then show ?thesis
    by (simp add: install_def zero_tree_fmupd zero_tree_cell_updates)
qed

lemma zero_tree_eval_try:
  assumes p: "parse X expression k = Some a" and b: "cellref_parse X k = Some b"
  shows "eval_try (zeroing X) cells k expression
           = map_sum id (\<lambda>(res, cs, tr). (res, zero_tree X k cs, tr))
               (eval_try X cells k expression)"
proof -
  let ?a' = "zero_unresolvable X b a"
  let ?rs = "extractReferencedCellIds X a b"
  have p': "parse (zeroing X) expression k = Some ?a'"
    and b': "cellref_parse (zeroing X) k = Some b"
    using p b by (simp_all add: zeroing_def)
  have rs: "extractReferencedCellIds (zeroing X) ?a' b = ?rs"
    by (simp add: extractReferencedCellIds_def)
  show ?thesis
  proof (cases "retract_previous X cells k expression a b")
    case (Inl t)
    then show ?thesis
      unfolding eval_try_stages[OF p' b'] eval_try_stages[OF p b]
        zero_tree_retract_previous[OF b]
      by simp
  next
    case ret: (Inr cells2)
    let ?cells3 = "add_to_referenced cells2 k ?rs"
    show ?thesis
    proof (cases "k \<in> set ?rs")
      case True
      with ret show ?thesis
        unfolding eval_try_stages[OF p' b'] eval_try_stages[OF p b]
          zero_tree_retract_previous[OF b] rs
        by simp
    next
      case nc: False
      show ?thesis
      proof (cases "evalAst X ?cells3 a b k")
        case (Inl t)
        with ret nc show ?thesis
          unfolding eval_try_stages[OF p' b'] eval_try_stages[OF p b]
            zero_tree_retract_previous[OF b] rs
          by (simp add: zero_tree_add_to_referenced)
      next
        case ev: (Inr result)
        show ?thesis
        proof (cases "updateDependentCells X (install ?cells3 k expression a result)
                        {} [] [] k")
          case (Inl t)
          with ret nc ev show ?thesis
            unfolding eval_try_stages[OF p' b'] eval_try_stages[OF p b]
              zero_tree_retract_previous[OF b] rs
            by (simp add: zero_tree_add_to_referenced zero_tree_install[OF b] zero_tree_pass)
        next
          case (Inr r)
          obtain cells5 P tr u where "r = (cells5, P, tr, u)" by (cases r) auto
          with Inr ret nc ev show ?thesis
            unfolding eval_try_stages[OF p' b'] eval_try_stages[OF p b]
              zero_tree_retract_previous[OF b] rs
            by (simp add: zero_tree_add_to_referenced zero_tree_install[OF b] zero_tree_pass)
        qed
      qed
    qed
  qed
qed

lemma zero_tree_eval:
  "fst (eval (zeroing X) cells k expression) = fst (eval X cells k expression) \<and>
   zero_tree X k (snd (eval (zeroing X) cells k expression))
     = zero_tree X k (snd (eval X cells k expression))"
proof (cases "parse X expression k = None \<or> cellref_parse X k = None")
  case True
  then have "parse (zeroing X) expression k = None \<or> cellref_parse (zeroing X) k = None"
    by (auto simp: zeroing_def split: option.splits)
  from eval_try_SYNTAX[OF this] eval_try_SYNTAX[OF True] show ?thesis
    by (simp add: eval_def)
next
  case False
  then obtain a b where p: "parse X expression k = Some a" and b: "cellref_parse X k = Some b"
    by auto
  show ?thesis
  proof (cases "eval_try X cells k expression")
    case (Inl t)
    then show ?thesis
      by (simp add: eval_def zero_tree_eval_try[OF p b])
  next
    case (Inr r)
    obtain res cs tr where "r = (res, cs, tr)" by (cases r) auto
    with Inr show ?thesis
      by (simp add: eval_def zero_tree_eval_try[OF p b])
  qed
qed

text \<open>
  Claim C10: a reference that does not resolve to a cell identifier against the base
  cell does not make the edit fail; it contributes no dependency edge (it is left out
  of the extracted reference set) and evaluates to 0.

  Such a reference gives no identifier to \<open>extractReferencedCellIds\<close> and the value
  0 to \<open>evalAst\<close>; and every edit, on every table, returns what it returns when the
  parser has put the literal 0 in the place of the references that do not resolve:
  the same update map or the same failure, and the same table but for that
  replacement in the tree of the edited cell.
\<close>

theorem unresolvable_reference_reads_zero:
  "(resolve X b r = None \<longrightarrow>
      extractReferencedCellIds X (Ref r) b = [] \<and> evalAst X cells (Ref r) b c = Inr (Fin 0)) \<and>
   fst (eval (zeroing X) cells' k expression) = fst (eval X cells' k expression) \<and>
   zero_tree X k (snd (eval (zeroing X) cells' k expression))
     = zero_tree X k (snd (eval X cells' k expression))"
  using zero_tree_eval[of X cells' k expression]
  by (auto simp: resolve_def extractReferencedCellIds_def split: option.splits)

theorem unresolvable_reference_reads_zero_witness:
  "resolve demo_ext ''a1'' ''z0'' = None \<and>
   extractReferencedCellIds demo_ext (Ref ''z0'') ''a1'' = [] \<and>
   evalAst demo_ext fmempty (Ref ''z0'') ''a1'' ''a1'' = Inr (Fin 0) \<and>
   parse demo_ext ''+(z0,2)'' ''a1'' = Some (App ''+'' [Ref ''z0'', Num (Fin 2)]) \<and>
   parse (zeroing demo_ext) ''+(z0,2)'' ''a1'' = Some (App ''+'' [Num (Fin 0), Num (Fin 2)]) \<and>
   fst (eval demo_ext fmempty ''a1'' ''+(z0,2)'') = Inr [(''a1'', Fin 2)] \<and>
   fst (eval (zeroing demo_ext) fmempty ''a1'' ''+(z0,2)'') = Inr [(''a1'', Fin 2)]"
proof -
  have r: "resolve demo_ext ''a1'' ''z0'' = None"
    by (simp add: resolve_def demo_defs)
  have p: "parse demo_ext ''+(z0,2)'' ''a1'' = Some (App ''+'' [Ref ''z0'', Num (Fin 2)])"
    by (simp add: demo_defs)
  have p': "parse (zeroing demo_ext) ''+(z0,2)'' ''a1''
              = Some (App ''+'' [Num (Fin 0), Num (Fin 2)])"
    by (simp add: zeroing_def resolve_def demo_defs)
  have e: "fst (eval demo_ext fmempty ''a1'' ''+(z0,2)'') = Inr [(''a1'', Fin 2)]"
    by code_simp
  from unresolvable_reference_reads_zero
         [of demo_ext "''a1''" "''z0''" fmempty "''a1''" fmempty "''a1''" "''+(z0,2)''"]
       r p p' e
  show ?thesis by simp
qed

end
